theory Spec2Isabelle
  imports Main "HOL-Library.Word"
begin

section \<open>Values, references and errors\<close>

text \<open>
  The development follows \<^verbatim>\<open>GarbageCollector/refs.c\<close>: the reference table, the
  reference-counting engine and the copying collector. A reference is a C integer; a
  \<^verbatim>\<open>value_t *\<close> is an address or \<^verbatim>\<open>NULL\<close>.
\<close>

type_synonym reference_t = int
type_synonym pointer = "nat option"

text \<open>
  Modelled from the spec: the header that defines the two reserved handles is not among
  the sources. The spec makes every valid handle a non-negative integer and reserves two
  sentinels, \<^verbatim>\<open>NULL\<close> and \<^verbatim>\<open>TOMBSTONE\<close>, distinct from each other and from every handle.
\<close>

definition NULL_REF :: reference_t where
  "NULL_REF = - 1"

definition TOMBSTONE_REF :: reference_t where
  "TOMBSTONE_REF = - 2"

text \<open>
  Modelled from the spec: the kinds of a value. The collector inspects only the composite
  kinds; \<open>VAL_SCALAR\<close> stands for every leaf kind.
\<close>

datatype value_type_t = VAL_FREE | VAL_SCALAR | VAL_LIST | VAL_DICT | VAL_REF_ARRAY

text \<open>
  What follows the header of a value. \<open>List_data\<close> is the \<^verbatim>\<open>values\<close> handle of a
  \<^verbatim>\<open>list_value_t\<close>, \<open>Dict_data\<close> the \<^verbatim>\<open>keys\<close> and \<^verbatim>\<open>values\<close> handles of a
  \<^verbatim>\<open>dict_value_t\<close>, \<open>Ref_array_data\<close> the \<^verbatim>\<open>values[]\<close> of a \<^verbatim>\<open>ref_array_value_t\<close>
  (its \<^verbatim>\<open>capacity\<close> is the length of the list). \<open>Pattern_fill\<close> is the data area
  right after \<^verbatim>\<open>make_ref\<close>, every byte \<^verbatim>\<open>0xCC\<close>, before the evaluator has stored
  anything in it.
\<close>

datatype payload =
    Pattern_fill
  | Opaque
  | List_data reference_t
  | Dict_data reference_t reference_t
  | Ref_array_data "reference_t list"

text \<open>
  The header of a value. The spec makes \<^verbatim>\<open>ref_count\<close> an unsigned counter; its width is
  the type parameter, so that \<^verbatim>\<open>ref_count--\<close> wraps as the C does.
\<close>

record (overloaded) 'w value_t =
  type :: value_type_t
  ref_count :: "'w word"
  value_size :: nat
  payload :: payload

datatype error =
    Out_of_fuel
  | Out_of_bounds
  | Assert_failed
  | Null_deref
  | Bad_payload
  | Resize_failed
  | Fill_overrun

section \<open>The state of the module and of the pool allocator\<close>

text \<open>
  A block of the pool: where it starts, how many bytes it spans, whether it is
  allocated.
\<close>

datatype block = Block (b_addr: nat) (b_size: nat) (b_used: bool)

text \<open>
  \<open>mem\<close> is the memory, one value per address at which a value starts. \<open>mm_base\<close>,
  \<open>mm_size\<close>, \<open>blocks\<close> and \<open>released\<close> belong to the pool allocator (\<open>released\<close>
  records the addresses handed to \<open>mm_free\<close>, most recent first). The other fields are
  the static variables of \<^verbatim>\<open>refs.c\<close>; \<^verbatim>\<open>num_refs\<close> is the length of \<open>ref_table\<close>, and
  \<open>host_slots\<close> is the largest table the C library's \<^verbatim>\<open>realloc\<close> will grant.
\<close>

record (overloaded) 'w state =
  mem :: "nat \<Rightarrow> 'w value_t"
  mm_base :: nat
  mm_size :: nat
  blocks :: "block list"
  released :: "nat list"
  from_space :: nat
  to_space :: nat
  pool_size :: nat
  ref_table :: "pointer list"
  max_refs :: nat
  host_slots :: nat

definition num_refs :: "'w state \<Rightarrow> nat" where
  "num_refs s = length (ref_table s)"

definition ALIGNMENT :: nat where
  "ALIGNMENT = 8"

subsection \<open>The pool allocator\<close>

text \<open>
  Modelled from the spec: the pool allocator (\<^verbatim>\<open>mm_init\<close>, \<^verbatim>\<open>mm_malloc\<close>, \<^verbatim>\<open>mm_free\<close>,
  \<^verbatim>\<open>mem_used\<close>, \<^verbatim>\<open>is_pool_address\<close>) is not among the sources. The spec gives its
  interface, \<^verbatim>\<open>reset(region)\<close>, \<^verbatim>\<open>allocate(size)\<close> returning storage or failure,
  \<^verbatim>\<open>release(storage)\<close>, \<^verbatim>\<open>bytes_in_use()\<close> and \<^verbatim>\<open>belongs_to_active_region(pointer)\<close>,
  and calls it a first-fit allocator within a fixed arena. The region is kept as a list
  of blocks in address order; allocation takes the first free block that is large
  enough and splits it.
\<close>

fun first_fit :: "nat \<Rightarrow> block list \<Rightarrow> (nat \<times> block list) option" where
  "first_fit n [] = None"
| "first_fit n (b # bs) =
     (if \<not> b_used b \<and> n \<le> b_size b then
        Some (b_addr b,
              Block (b_addr b) n True #
              (if n < b_size b then [Block (b_addr b + n) (b_size b - n) False] else []) @ bs)
      else (case first_fit n bs of
              None \<Rightarrow> None
            | Some (a, bs') \<Rightarrow> Some (a, b # bs')))"

text \<open>Modelled from the spec: \<^verbatim>\<open>reset(region)\<close>, one free block over the whole region.\<close>

definition mm_init :: "nat \<Rightarrow> nat \<Rightarrow> 'w state \<Rightarrow> 'w state" where
  "mm_init memory_size memory_pool s =
     s\<lparr>mm_base := memory_pool, mm_size := memory_size,
       blocks := [Block memory_pool memory_size False]\<rparr>"

text \<open>
  Modelled from the spec: \<^verbatim>\<open>allocate(size)\<close>. A request of no bytes fails. The header
  of the block handed out carries \<open>VAL_FREE\<close> and the block's size: \<^verbatim>\<open>make_ref\<close> asserts
  the first and reads the second.
\<close>

definition mm_malloc :: "nat \<Rightarrow> 'w state \<Rightarrow> pointer \<times> 'w state" where
  "mm_malloc sz s =
     (if sz = 0 then (None, s)
      else (case first_fit sz (blocks s) of
              None \<Rightarrow> (None, s)
            | Some (a, bs) \<Rightarrow>
                (Some a,
                 s\<lparr>mem := (mem s)(a := (mem s a)\<lparr>type := VAL_FREE, value_size := sz\<rparr>),
                   blocks := bs\<rparr>)))"

text \<open>Modelled from the spec: \<^verbatim>\<open>release(storage)\<close>, the block at the address becomes free.\<close>

definition mm_free :: "nat \<Rightarrow> 'w state \<Rightarrow> 'w state" where
  "mm_free a s =
     s\<lparr>blocks := map (\<lambda>b. if b_addr b = a \<and> b_used b then Block a (b_size b) False else b)
                      (blocks s),
       released := a # released s\<rparr>"

text \<open>Modelled from the spec: \<^verbatim>\<open>bytes_in_use()\<close>, the bytes of the allocated blocks.\<close>

definition mem_used :: "'w state \<Rightarrow> nat" where
  "mem_used s = sum_list (map b_size (filter b_used (blocks s)))"

text \<open>
  Modelled from the spec: \<^verbatim>\<open>belongs_to_active_region(pointer)\<close>, the address lies in the
  region the allocator was last reset over; \<^verbatim>\<open>NULL\<close> does not.
\<close>

definition is_pool_address :: "pointer \<Rightarrow> 'w state \<Rightarrow> bool" where
  "is_pool_address p s =
     (case p of None \<Rightarrow> False | Some a \<Rightarrow> mm_base s \<le> a \<and> a < mm_base s + mm_size s)"

section \<open>The reference table\<close>

definition init_refs :: "nat \<Rightarrow> nat \<Rightarrow> 'w state \<Rightarrow> 'w state" where
  "init_refs memory_size memory_pool s =
     (let psize = (memory_size div 2) div ALIGNMENT * ALIGNMENT;
          s1 = mm_init psize memory_pool (s\<lparr>pool_size := psize\<rparr>)
      in s1\<lparr>from_space := memory_pool,
            to_space := memory_pool + (memory_size div 2) div ALIGNMENT * ALIGNMENT,
            ref_table := [], max_refs := 0\<rparr>)"

text \<open>The scan of \<^verbatim>\<open>assign_reference\<close> for the first unused slot, from index \<open>i\<close> on.\<close>

primrec first_unused :: "nat \<Rightarrow> pointer list \<Rightarrow> nat option" where
  "first_unused i [] = None"
| "first_unused i (p # ps) = (if p = None then Some i else first_unused (Suc i) ps)"

text \<open>
  Modelled from the spec: \<^verbatim>\<open>INITIAL_SIZE\<close> is declared in a header that is not among the
  sources; it is the parameter \<open>initial_size\<close> of \<open>assign_reference\<close> and \<open>make_ref\<close>.
  A table that \<^verbatim>\<open>realloc\<close> does not grant ends the program; a store at an index the
  table's storage does not have is out of bounds.
\<close>

definition assign_reference ::
  "nat \<Rightarrow> pointer \<Rightarrow> 'w state \<Rightarrow> error + (reference_t \<times> 'w state)" where
  "assign_reference initial_size value s =
     (case first_unused 0 (ref_table s) of
        Some i \<Rightarrow> Inr (int i, s\<lparr>ref_table := (ref_table s)[i := value]\<rparr>)
      | None \<Rightarrow>
          (let m = (if num_refs s = max_refs s
                    then (if max_refs s = 0 then initial_size else max_refs s * 2)
                    else max_refs s)
           in if num_refs s = max_refs s \<and> host_slots s < m then Inl Resize_failed
              else if m \<le> num_refs s then Inl Out_of_bounds
              else Inr (int (num_refs s),
                        s\<lparr>ref_table := ref_table s @ [value], max_refs := m\<rparr>)))"

text \<open>
  The requested size is a \<^verbatim>\<open>size_t\<close>, taken as 64 bits wide: the rounding wraps. The data area of
  the new value is filled with \<^verbatim>\<open>0xCC\<close> over \<^verbatim>\<open>value->value_size - sizeof(value_t)\<close> bytes, a
  \<^verbatim>\<open>size_t\<close> again: for a block smaller than the header the length wraps, the fill runs
  far beyond the pool and the call does not return, which is the error \<open>Fill_overrun\<close>.
  The declaration of \<^verbatim>\<open>value_t\<close> is not among the sources; its size is the parameter
  \<open>header_size\<close>.
\<close>

definition make_ref ::
  "nat \<Rightarrow> nat \<Rightarrow> value_type_t \<Rightarrow> nat \<Rightarrow> 'w::len state
    \<Rightarrow> error + (reference_t \<times> 'w state)" where
  "make_ref initial_size header_size ty sz s =
     (let sz' = ((sz + ALIGNMENT - 1) mod 2 ^ 64) div ALIGNMENT * ALIGNMENT
      in case mm_malloc sz' s of
           (None, s1) \<Rightarrow> Inr (NULL_REF, s1)
         | (Some value, s1) \<Rightarrow>
             if type (mem s1 value) \<noteq> VAL_FREE then Inl Assert_failed
             else if value_size (mem s1 value) < header_size then Inl Fill_overrun
             else assign_reference initial_size (Some value)
                    (s1\<lparr>mem := (mem s1)(value := (mem s1 value)
                           \<lparr>type := ty, ref_count := 1, payload := Pattern_fill\<rparr>)\<rparr>))"

text \<open>
  \<^verbatim>\<open>ref_table[ref]\<close> read with no check, as \<^verbatim>\<open>decref\<close> and \<^verbatim>\<open>copy_contents\<close> do: an
  index outside \<^verbatim>\<open>0 .. num_refs - 1\<close> reads no slot of the table.
\<close>

definition table_at :: "reference_t \<Rightarrow> 'w state \<Rightarrow> error + pointer" where
  "table_at ref s =
     (if 0 \<le> ref \<and> ref < int (num_refs s) then Inr (ref_table s ! nat ref)
      else Inl Out_of_bounds)"

definition deref :: "reference_t \<Rightarrow> 'w state \<Rightarrow> error + nat" where
  "deref ref s =
     (if \<not> (0 \<le> ref \<and> ref < int (num_refs s)) then Inl Assert_failed
      else (case ref_table s ! nat ref of
              None \<Rightarrow> Inl Assert_failed
            | Some value \<Rightarrow>
                if is_pool_address (Some value) s then Inr value else Inl Assert_failed))"

primrec get_ref_from :: "nat \<Rightarrow> pointer list \<Rightarrow> pointer \<Rightarrow> error + reference_t" where
  "get_ref_from i [] value = Inl Assert_failed"
| "get_ref_from i (p # ps) value =
     (if p = value then Inr (int i) else get_ref_from (Suc i) ps value)"

definition get_ref :: "pointer \<Rightarrow> 'w state \<Rightarrow> error + reference_t" where
  "get_ref value s = get_ref_from 0 (ref_table s) value"

definition refs_used :: "'w state \<Rightarrow> nat" where
  "refs_used s = length (filter (\<lambda>p. p \<noteq> None) (ref_table s))"

section \<open>Reference counting\<close>

definition incref :: "reference_t \<Rightarrow> 'w::len state \<Rightarrow> error + 'w state" where
  "incref ref s =
     (case deref ref s of
        Inl e \<Rightarrow> Inl e
      | Inr value \<Rightarrow>
          Inr (s\<lparr>mem := (mem s)(value := (mem s value)
                  \<lparr>ref_count := ref_count (mem s value) + 1\<rparr>)\<rparr>))"

text \<open>
  \<^verbatim>\<open>decref\<close> and \<^verbatim>\<open>traverse_decref\<close> call each other; the first argument bounds the depth
  of the calls. \<open>traverse_decref_array\<close> is the loop over a \<^verbatim>\<open>ref_array_value_t\<close>.
\<close>

fun decref :: "nat \<Rightarrow> reference_t \<Rightarrow> 'w::len state \<Rightarrow> error + 'w state"
  and traverse_decref :: "nat \<Rightarrow> nat \<Rightarrow> 'w state \<Rightarrow> error + 'w state"
  and traverse_decref_array :: "nat \<Rightarrow> reference_t list \<Rightarrow> 'w state \<Rightarrow> error + 'w state"
where
  "decref 0 ref s = Inl Out_of_fuel"
| "decref (Suc n) ref s =
     (case table_at ref s of
        Inl e \<Rightarrow> Inl e
      | Inr p \<Rightarrow>
          if is_pool_address p s then
            (case deref ref s of
               Inl e \<Rightarrow> Inl e
             | Inr value \<Rightarrow>
                 let s1 = s\<lparr>mem := (mem s)(value := (mem s value)
                              \<lparr>ref_count := ref_count (mem s value) - 1\<rparr>)\<rparr>
                 in if ref_count (mem s1 value) > 0 then Inr s1
                    else (case traverse_decref n value
                                 (s1\<lparr>ref_table := (ref_table s1)[nat ref := None]\<rparr>) of
                            Inl e \<Rightarrow> Inl e
                          | Inr s2 \<Rightarrow> Inr (mm_free value s2)))
          else Inr s)"
| "traverse_decref n value s =
     (if type (mem s value) = VAL_LIST then
        (case payload (mem s value) of
           List_data vals \<Rightarrow> decref n vals s
         | _ \<Rightarrow> Inl Bad_payload)
      else if type (mem s value) = VAL_DICT then
        (case payload (mem s value) of
           Dict_data ks vals \<Rightarrow>
             (case decref n ks s of Inl e \<Rightarrow> Inl e | Inr s1 \<Rightarrow> decref n vals s1)
         | _ \<Rightarrow> Inl Bad_payload)
      else if type (mem s value) = VAL_REF_ARRAY then
        (case payload (mem s value) of
           Ref_array_data arr \<Rightarrow> traverse_decref_array n arr s
         | _ \<Rightarrow> Inl Bad_payload)
      else Inr s)"
| "traverse_decref_array n [] s = Inr s"
| "traverse_decref_array n (ref # refs) s =
     (if ref \<noteq> NULL_REF \<and> ref \<noteq> TOMBSTONE_REF then
        (case decref n ref s of
           Inl e \<Rightarrow> Inl e
         | Inr s1 \<Rightarrow> traverse_decref_array n refs s1)
      else traverse_decref_array n refs s)"

section \<open>The copying collector\<close>

fun copy_contents :: "nat \<Rightarrow> reference_t \<Rightarrow> 'w::len state \<Rightarrow> error + 'w state"
  and copy_contents_array :: "nat \<Rightarrow> reference_t list \<Rightarrow> 'w state \<Rightarrow> error + 'w state"
where
  "copy_contents 0 ref s = Inl Out_of_fuel"
| "copy_contents (Suc n) ref s =
     (case table_at ref s of
        Inl e \<Rightarrow> Inl e
      | Inr p \<Rightarrow>
          if \<not> is_pool_address p s then
            (case p of
               None \<Rightarrow> Inl Null_deref
             | Some old_value \<Rightarrow>
                 (case mm_malloc (value_size (mem s old_value)) s of
                    (None, s1) \<Rightarrow> Inl Null_deref
                  | (Some value, s1) \<Rightarrow>
                      let s2 = s1\<lparr>mem := (mem s1)(value := mem s1 old_value)\<rparr>;
                          s3 = s2\<lparr>ref_table := (ref_table s2)[nat ref := Some value]\<rparr>
                      in if type (mem s3 value) = VAL_LIST then
                           (case payload (mem s3 value) of
                              List_data vals \<Rightarrow> copy_contents n vals s3
                            | _ \<Rightarrow> Inl Bad_payload)
                         else if type (mem s3 value) = VAL_DICT then
                           (case payload (mem s3 value) of
                              Dict_data ks vals \<Rightarrow>
                                (case copy_contents n ks s3 of
                                   Inl e \<Rightarrow> Inl e
                                 | Inr s4 \<Rightarrow> copy_contents n vals s4)
                            | _ \<Rightarrow> Inl Bad_payload)
                         else if type (mem s3 value) = VAL_REF_ARRAY then
                           (case payload (mem s3 value) of
                              Ref_array_data arr \<Rightarrow> copy_contents_array n arr s3
                            | _ \<Rightarrow> Inl Bad_payload)
                         else Inr s3))
          else Inr s)"
| "copy_contents_array n [] s = Inr s"
| "copy_contents_array n (ref # refs) s =
     (if ref \<noteq> NULL_REF \<and> ref \<noteq> TOMBSTONE_REF then
        (case copy_contents n ref s of
           Inl e \<Rightarrow> Inl e
         | Inr s1 \<Rightarrow> copy_contents_array n refs s1)
      else copy_contents_array n refs s)"

text \<open>
  Modelled from the spec: \<^verbatim>\<open>foreach_global\<close> belongs to the evaluator, which is not among
  the sources. It calls the visitor on every root handle, here the list \<open>roots\<close>.
\<close>

fun foreach_global ::
  "(reference_t \<Rightarrow> 'w state \<Rightarrow> error + 'w state) \<Rightarrow> reference_t list \<Rightarrow> 'w state
    \<Rightarrow> error + 'w state" where
  "foreach_global f [] s = Inr s"
| "foreach_global f (r # rs) s =
     (case f r s of Inl e \<Rightarrow> Inl e | Inr s1 \<Rightarrow> foreach_global f rs s1)"

text \<open>The loop of \<^verbatim>\<open>collect_garbage\<close> over the slots of the table, given as indices.\<close>

fun sweep :: "nat \<Rightarrow> nat list \<Rightarrow> 'w::len state \<Rightarrow> error + 'w state" where
  "sweep n [] s = Inr s"
| "sweep n (i # is) s =
     (if \<not> is_pool_address (ref_table s ! i) s \<and> ref_table s ! i \<noteq> None then
        (case ref_table s ! i of
           None \<Rightarrow> Inl Null_deref
         | Some value \<Rightarrow>
             (case traverse_decref n value s of
                Inl e \<Rightarrow> Inl e
              | Inr s1 \<Rightarrow> sweep n is (s1\<lparr>ref_table := (ref_table s1)[i := None]\<rparr>)))
      else sweep n is s)"

definition collect_garbage ::
  "nat \<Rightarrow> reference_t list \<Rightarrow> 'w::len state \<Rightarrow> error + 'w state" where
  "collect_garbage n roots s =
     (case foreach_global (copy_contents n) roots (mm_init (pool_size s) (to_space s) s) of
        Inl e \<Rightarrow> Inl e
      | Inr s1 \<Rightarrow>
          (let s2 = s1\<lparr>from_space := to_space s1, to_space := from_space s1\<rparr>
           in sweep n [0..<num_refs s2] s2))"

section \<open>Notions for the proofs\<close>

text \<open>
  The handles that \<open>traverse_decref\<close> and \<open>copy_contents\<close> visit in a value, in the
  order of the visit: the child of a list, the keys and the values of a dictionary, the
  entries of a reference array other than \<open>NULL_REF\<close> and \<open>TOMBSTONE_REF\<close>. No list
  when the data area does not hold what the kind says.
\<close>

definition children :: "'w::len value_t \<Rightarrow> reference_t list option" where
  "children v =
     (if type v = VAL_LIST then
        (case payload v of List_data vals \<Rightarrow> Some [vals] | _ \<Rightarrow> None)
      else if type v = VAL_DICT then
        (case payload v of Dict_data ks vals \<Rightarrow> Some [ks, vals] | _ \<Rightarrow> None)
      else if type v = VAL_REF_ARRAY then
        (case payload v of
           Ref_array_data arr \<Rightarrow> Some (filter (\<lambda>r. r \<noteq> NULL_REF \<and> r \<noteq> TOMBSTONE_REF) arr)
         | _ \<Rightarrow> None)
      else Some [])"

text \<open>The two stores of \<open>decref\<close>: the count taken down by one, the slot cleared.\<close>

definition dec_count :: "nat \<Rightarrow> 'w::len state \<Rightarrow> 'w state" where
  "dec_count a s = s\<lparr>mem := (mem s)(a := (mem s a)\<lparr>ref_count := ref_count (mem s a) - 1\<rparr>)\<rparr>"

definition clear_slot :: "nat \<Rightarrow> 'w::len state \<Rightarrow> 'w state" where
  "clear_slot i s = s\<lparr>ref_table := (ref_table s)[i := None]\<rparr>"

text \<open>
  What a call of \<open>decref\<close> does to the state, whatever the depth: nothing, or one count
  taken down, or a count taken to zero (the slot cleared, then what the children's calls
  do, then the release), or one such thing after another.
\<close>

inductive dec_run :: "'w::len state \<Rightarrow> 'w state \<Rightarrow> bool" where
  skip: "dec_run s s"
| dec: "\<lbrakk>i < length (ref_table s); ref_table s ! i = Some a; is_pool_address (Some a) s;
         ref_count (mem s a) \<noteq> 1\<rbrakk> \<Longrightarrow> dec_run s (dec_count a s)"
| zero: "\<lbrakk>i < length (ref_table s); ref_table s ! i = Some a; is_pool_address (Some a) s;
          ref_count (mem s a) = 1; dec_run (clear_slot i (dec_count a s)) s3\<rbrakk>
         \<Longrightarrow> dec_run s (mm_free a s3)"
| seq: "\<lbrakk>dec_run s s1; dec_run s1 s2\<rbrakk> \<Longrightarrow> dec_run s s2"

text \<open>
  The blocks of the allocator tile its region, and an allocated block is not empty.
\<close>

fun chain :: "nat \<Rightarrow> block list \<Rightarrow> nat \<Rightarrow> bool" where
  "chain a [] e = (a = e)"
| "chain a (b # bs) e = (b_addr b = a \<and> chain (a + b_size b) bs e)"

definition alloc_ok :: "'w::len state \<Rightarrow> bool" where
  "alloc_ok s =
     (chain (mm_base s) (blocks s) (mm_base s + mm_size s)
      \<and> list_all (\<lambda>b. b_used b \<longrightarrow> 0 < b_size b) (blocks s))"

definition free_in :: "nat \<Rightarrow> block list \<Rightarrow> block list" where
  "free_in a bs = map (\<lambda>b. if b_addr b = a \<and> b_used b then Block a (b_size b) False else b) bs"

definition used_bytes :: "block list \<Rightarrow> nat" where
  "used_bytes bs = sum_list (map b_size (filter b_used bs))"

text \<open>
  In a region where nothing was released since the reset, the allocated blocks come
  first and at most one free block follows.
\<close>

definition compact :: "block list \<Rightarrow> bool" where
  "compact bs = (\<exists>us fs. bs = us @ fs \<and> list_all b_used us
                   \<and> (fs = [] \<or> (\<exists>b. fs = [b] \<and> \<not> b_used b)))"

text \<open>
  Slot \<open>i\<close> holds the address \<open>a\<close> of the active region; no two slots hold the same
  one; the block at such an address is allocated and as large as the value says.
\<close>

definition live_at :: "'w::len state \<Rightarrow> nat \<Rightarrow> nat \<Rightarrow> bool" where
  "live_at s i a =
     (i < length (ref_table s) \<and> ref_table s ! i = Some a \<and> is_pool_address (Some a) s)"

definition inj_slots :: "'w::len state \<Rightarrow> bool" where
  "inj_slots s = (\<forall>i j a. live_at s i a \<longrightarrow> live_at s j a \<longrightarrow> i = j)"

definition sized :: "'w::len state \<Rightarrow> bool" where
  "sized s = (\<forall>i a. live_at s i a \<longrightarrow> Block a (value_size (mem s a)) True \<in> set (blocks s))"

definition wf :: "'w::len state \<Rightarrow> bool" where
  "wf s = (alloc_ok s \<and> inj_slots s \<and> sized s)"

definition pool_count :: "'w::len state \<Rightarrow> nat" where
  "pool_count s = length (filter (\<lambda>p. is_pool_address p s) (ref_table s))"

definition pool_heap_ok :: "'w::len state \<Rightarrow> bool" where
  "pool_heap_ok s =
     (\<forall>i a. live_at s i a \<longrightarrow>
        (\<exists>cs. children (mem s a) = Some cs \<and> (\<forall>c\<in>set cs. 0 \<le> c \<and> c < int (num_refs s))))"

text \<open>
  The same, as a check that runs: \<open>slot_addrs\<close> lists the addresses of the active
  region that the table holds. \<open>table_ok\<close> asks that the allocator's blocks tile its
  region, that no two slots hold the same address, that each such address is an allocated
  block of the value's size, and that the children of each value are handles within the
  table.
\<close>

definition slot_addrs :: "'w::len state \<Rightarrow> nat list" where
  "slot_addrs s = map the (filter (\<lambda>p. is_pool_address p s) (ref_table s))"

definition table_ok :: "'w::len state \<Rightarrow> bool" where
  "table_ok s =
     (alloc_ok s \<and> distinct (slot_addrs s)
      \<and> list_all (\<lambda>a. Block a (value_size (mem s a)) True \<in> set (blocks s)) (slot_addrs s)
      \<and> list_all (\<lambda>a. case children (mem s a) of
                         None \<Rightarrow> False
                       | Some cs \<Rightarrow> list_all (\<lambda>c. 0 \<le> c \<and> c < int (num_refs s)) cs)
           (slot_addrs s))"


text \<open>
  The copy of one value by \<open>copy_contents\<close>: the value at \<open>old\<close> is stored at the
  fresh address \<open>new\<close>, slot \<open>i\<close> designates it, and \<open>bs\<close> are the blocks after the
  allocation.
\<close>

definition moved :: "nat \<Rightarrow> nat \<Rightarrow> nat \<Rightarrow> block list \<Rightarrow> 'w::len state \<Rightarrow> 'w state" where
  "moved i old new bs s =
     s\<lparr>mem := (mem s)(new := mem s old), blocks := bs,
       ref_table := (ref_table s)[i := Some new]\<rparr>"

text \<open>
  What \<open>copy_contents\<close> does to the state when it starts from handles of \<open>U\<close>:
  nothing, or the copy of one value whose handle is in \<open>U\<close>, or one such thing after
  another.
\<close>

inductive copy_run :: "int set \<Rightarrow> 'w::len state \<Rightarrow> 'w state \<Rightarrow> bool" for U where
  skip: "copy_run U s s"
| step: "\<lbrakk>int i \<in> U; i < length (ref_table s); ref_table s ! i = Some old;
          \<not> is_pool_address (Some old) s; 0 < value_size (mem s old);
          first_fit (value_size (mem s old)) (blocks s) = Some (new, bs)\<rbrakk>
         \<Longrightarrow> copy_run U s (moved i old new bs s)"
| seq: "\<lbrakk>copy_run U s s1; copy_run U s1 s2\<rbrakk> \<Longrightarrow> copy_run U s s2"

text \<open>
  A slot is stale when it holds an address outside the active region: during a
  collection, the value it designates has not been copied.
\<close>

definition stale :: "'w::len state \<Rightarrow> pointer \<Rightarrow> bool" where
  "stale s p = (p \<noteq> None \<and> \<not> is_pool_address p s)"

definition stale_count :: "'w::len state \<Rightarrow> nat" where
  "stale_count s = length (filter (stale s) (ref_table s))"

definition stale_bytes :: "'w::len state \<Rightarrow> nat" where
  "stale_bytes s = sum_list (map (\<lambda>p. value_size (mem s (the p))) (filter (stale s) (ref_table s)))"

text \<open>
  A set \<open>U\<close> of handles is closed when each of them is within the table and designates
  a value of some size, whose children are handles of \<open>U\<close> again. The handles that the
  roots can reach are in every closed set that holds the roots.
\<close>

definition closed :: "int set \<Rightarrow> 'w::len state \<Rightarrow> bool" where
  "closed U s =
     (\<forall>h\<in>U. 0 \<le> h \<and> h < int (num_refs s)
        \<and> (\<exists>a cs. ref_table s ! nat h = Some a \<and> 0 < value_size (mem s a)
               \<and> children (mem s a) = Some cs \<and> set cs \<subseteq> U))"

text \<open>
  What holds throughout the copy: the table and the allocator agree, nothing was
  released in the region, the values still to copy fit in what is left of it, and \<open>U\<close>
  is closed.
\<close>

definition copy_inv :: "int set \<Rightarrow> 'w::len state \<Rightarrow> bool" where
  "copy_inv U s =
     (wf s \<and> compact (blocks s) \<and> mem_used s + stale_bytes s \<le> mm_size s \<and> closed U s)"

text \<open>
  What the sweep of \<open>collect_garbage\<close> does: nothing, or what a \<open>decref\<close> does and
  then more, or a stale slot cleared and then more.
\<close>

inductive sweep_run :: "'w::len state \<Rightarrow> 'w state \<Rightarrow> bool" where
  skip: "sweep_run s s"
| dec: "\<lbrakk>dec_run s s1; sweep_run s1 s2\<rbrakk> \<Longrightarrow> sweep_run s s2"
| drop: "\<lbrakk>i < length (ref_table s); \<not> is_pool_address (ref_table s ! i) s;
          sweep_run (clear_slot i s) s2\<rbrakk> \<Longrightarrow> sweep_run s s2"

text \<open>
  Every allocated block is the block of a slot, but for those of \<open>X\<close>; and the children
  of every value of the table are handles within the table.
\<close>

definition covered :: "nat set \<Rightarrow> 'w::len state \<Rightarrow> bool" where
  "covered X s =
     (\<forall>b\<in>set (blocks s). b_used b \<longrightarrow> b_addr b \<in> X \<or> (\<exists>i. live_at s i (b_addr b)))"

definition all_heap_ok :: "'w::len state \<Rightarrow> bool" where
  "all_heap_ok s =
     (\<forall>i a. i < length (ref_table s) \<longrightarrow> ref_table s ! i = Some a \<longrightarrow>
        (\<exists>cs. children (mem s a) = Some cs \<and> (\<forall>c\<in>set cs. 0 \<le> c \<and> c < int (num_refs s))))"

text \<open>
  The state between two operations of the module: \<open>table_ok\<close>, every slot unused or
  holding an address of the active region, the allocator working over \<^verbatim>\<open>from_space\<close>,
  and the two regions apart.
\<close>

definition steady :: "'w::len state \<Rightarrow> bool" where
  "steady s =
     (table_ok s
      \<and> list_all (\<lambda>p. p = None \<or> is_pool_address p s) (ref_table s)
      \<and> mm_base s = from_space s \<and> mm_size s = pool_size s
      \<and> (to_space s + pool_size s \<le> from_space s \<or> from_space s + pool_size s \<le> to_space s))"

text \<open>The exchange of \<^verbatim>\<open>from_space\<close> and \<^verbatim>\<open>to_space\<close> in \<open>collect_garbage\<close>.\<close>

definition swap_spaces :: "'w::len state \<Rightarrow> 'w state" where
  "swap_spaces s = s\<lparr>from_space := to_space s, to_space := from_space s\<rparr>"

text \<open>The state with the count of the value at \<open>a\<close> set to \<open>c\<close>.\<close>

definition set_count :: "nat \<Rightarrow> 'w word \<Rightarrow> 'w::len state \<Rightarrow> 'w state" where
  "set_count a c s = s\<lparr>mem := (mem s)(a := (mem s a)\<lparr>ref_count := c\<rparr>)\<rparr>"

text \<open>
  The bytes of the value that slot \<open>i\<close> designates, none for an unused slot; the bytes
  of the values whose slots a collection has cleared; the addresses of the active region
  that the table holds, as a set.
\<close>

definition slot_bytes :: "'w::len state \<Rightarrow> nat \<Rightarrow> nat" where
  "slot_bytes s i = (case ref_table s ! i of None \<Rightarrow> 0 | Some a \<Rightarrow> value_size (mem s a))"

definition reclaimed_bytes :: "'w::len state \<Rightarrow> 'w state \<Rightarrow> nat" where
  "reclaimed_bytes s s' =
     sum_list (map (\<lambda>i. if ref_table s' ! i = None then slot_bytes s i else 0)
                 [0..<num_refs s])"

definition live_addrs :: "'w::len state \<Rightarrow> nat set" where
  "live_addrs s = {a. \<exists>i. live_at s i a}"


text \<open>
  The handles that the roots can reach: the roots, and the children of the value of a
  reachable handle, which are the child of a list, the keys and the values of a
  dictionary, and the entries of a reference array other than \<^verbatim>\<open>NULL_REF\<close> and
  \<^verbatim>\<open>TOMBSTONE_REF\<close>.
\<close>

inductive_set reach :: "'w::len state \<Rightarrow> reference_t list \<Rightarrow> reference_t set"
  for s :: "'w state" and roots :: "reference_t list" where
  root: "r \<in> set roots \<Longrightarrow> r \<in> reach s roots"
| child: "\<lbrakk>h \<in> reach s roots; 0 \<le> h; h < int (num_refs s); ref_table s ! nat h = Some a;
           children (mem s a) = Some cs; c \<in> set cs\<rbrakk> \<Longrightarrow> c \<in> reach s roots"

text \<open>
  The children of the value that slot \<open>i\<close> designates, none for an unused slot; and
  the slots that hold an address of the active region, which during the copy phase of
  \<open>collect_garbage\<close> are the slots whose value is copied.
\<close>

definition kids :: "'w::len state \<Rightarrow> nat \<Rightarrow> reference_t list" where
  "kids s i =
     (case ref_table s ! i of
        None \<Rightarrow> []
      | Some a \<Rightarrow> (case children (mem s a) of None \<Rightarrow> [] | Some cs \<Rightarrow> cs))"

definition black :: "'w::len state \<Rightarrow> nat \<Rightarrow> bool" where
  "black s i = (i < length (ref_table s) \<and> is_pool_address (ref_table s ! i) s)"

text \<open>
  When \<open>copy_contents\<close> returns, the handle it was called on is copied, and so are the
  children of every value that was copied during the call.
\<close>

definition dfs_post :: "'w::len state \<Rightarrow> 'w state \<Rightarrow> bool" where
  "dfs_post s s' =
     (\<forall>i. black s' i \<and> \<not> black s i \<longrightarrow> (\<forall>c\<in>set (kids s i). black s' (nat c)))"

text \<open>
  The references that the values outside \<open>U\<close> hold, with their multiplicity: the sweep
  of \<open>collect_garbage\<close> calls \<open>decref\<close> once on each of them. \<open>count_at\<close> is the count
  stored in the value of a handle.
\<close>

definition unreached_refs :: "int set \<Rightarrow> 'w::len state \<Rightarrow> reference_t list" where
  "unreached_refs U s = concat (map (\<lambda>i. if int i \<in> U then [] else kids s i) [0..<num_refs s])"

definition count_at :: "'w::len state \<Rightarrow> reference_t \<Rightarrow> nat" where
  "count_at s h = (case ref_table s ! nat h of None \<Rightarrow> 0 | Some a \<Rightarrow> unat (ref_count (mem s a)))"

text \<open>
  The state \<open>r\<close> at the start of the sweep when \<open>U\<close> is what the roots reach: the
  handles of \<open>U\<close> are copied, no other slot holds an address of the active region, and
  the table is injective on the region with children in range.
\<close>

definition copied :: "int set \<Rightarrow> 'w::len state \<Rightarrow> bool" where
  "copied U r =
     ((\<forall>h\<in>U. 0 \<le> h \<and> black r (nat h))
      \<and> (\<forall>i<length (ref_table r). int i \<notin> U \<longrightarrow> \<not> is_pool_address (ref_table r ! i) r)
      \<and> inj_slots r \<and> all_heap_ok r)"

text \<open>
  A state \<open>t\<close> of a sweep that started in \<open>r\<close> and released nothing: the slots of \<open>U\<close>
  are those of \<open>r\<close>, the other slots are those of \<open>r\<close> or cleared, and the values differ
  from those of \<open>r\<close> in their counts only. \<open>budget\<close> says that the count of each handle
  of \<open>U\<close> is above its number of occurrences in the references \<open>ps\<close> still to drop.
\<close>

definition quiet :: "int set \<Rightarrow> 'w::len state \<Rightarrow> 'w state \<Rightarrow> bool" where
  "quiet U r t =
     (length (ref_table t) = length (ref_table r) \<and> mm_base t = mm_base r
      \<and> mm_size t = mm_size r \<and> released t = released r
      \<and> (\<forall>i<length (ref_table r).
            ref_table t ! i = ref_table r ! i \<or> (int i \<notin> U \<and> ref_table t ! i = None))
      \<and> (\<forall>a. type (mem t a) = type (mem r a) \<and> payload (mem t a) = payload (mem r a)))"

definition budget :: "int set \<Rightarrow> 'w::len state \<Rightarrow> 'w state \<Rightarrow> reference_t list \<Rightarrow> bool" where
  "budget U r t ps =
     (\<forall>h\<in>U. count_list ps h < unat (ref_count (mem t (the (ref_table r ! nat h)))))"

section \<open>Example states\<close>

text \<open>
  An arena of 64 bytes at address 1000, split by \<open>init_refs\<close> into two regions of 32
  bytes: the examples below start from it, with counters of 32 bits.
\<close>

definition blank_value :: "'w::len value_t" where
  "blank_value = \<lparr>type = VAL_FREE, ref_count = 0, value_size = 0, payload = Opaque\<rparr>"

definition blank :: "'w::len state" where
  "blank = \<lparr>mem = (\<lambda>_. blank_value), mm_base = 0, mm_size = 0, blocks = [], released = [],
            from_space = 0, to_space = 0, pool_size = 0, ref_table = [], max_refs = 0,
            host_slots = 1024\<rparr>"

definition arena64 :: "32 state" where
  "arena64 = init_refs 64 1000 blank"

text \<open>
  An arena of 4096 bytes at address 4096 after four creations: three scalars at handles
  0, 1 and 2, and at handle 3 a list whose backing array is handle 3 itself. The list is
  counted twice, once by the evaluator and once by itself.
\<close>

definition scalar24 :: "32 value_t" where
  "scalar24 = \<lparr>type = VAL_SCALAR, ref_count = 1, value_size = 24, payload = Opaque\<rparr>"

definition self_list :: "32 value_t" where
  "self_list = \<lparr>type = VAL_LIST, ref_count = 2, value_size = 32, payload = List_data 3\<rparr>"

definition heap4 :: "32 state" where
  "heap4 = \<lparr>mem = (\<lambda>_. blank_value)
                (4096 := scalar24, 4120 := scalar24, 4144 := scalar24, 4168 := self_list),
            mm_base = 4096, mm_size = 2048,
            blocks = [Block 4096 24 True, Block 4120 24 True, Block 4144 24 True,
                      Block 4168 32 True, Block 4200 1944 False],
            released = [], from_space = 4096, to_space = 6144, pool_size = 2048,
            ref_table = [Some 4096, Some 4120, Some 4144, Some 4168], max_refs = 8,
            host_slots = 1024\<rparr>"

text \<open>
  A region with a scalar of count \<open>c\<close> at handle 0 and, at handle 1, a list whose child
  is handle 0.
\<close>

definition list_of0 :: "32 value_t" where
  "list_of0 = \<lparr>type = VAL_LIST, ref_count = 1, value_size = 32, payload = List_data 0\<rparr>"

definition shared_heap :: "32 word \<Rightarrow> 32 state" where
  "shared_heap c = \<lparr>mem = (\<lambda>_. blank_value)
                       (4096 := scalar24\<lparr>ref_count := c\<rparr>, 4120 := list_of0),
            mm_base = 4096, mm_size = 2048,
            blocks = [Block 4096 24 True, Block 4120 32 True, Block 4152 1992 False],
            released = [], from_space = 4096, to_space = 6144, pool_size = 2048,
            ref_table = [Some 4096, Some 4120], max_refs = 8,
            host_slots = 1024\<rparr>"

text \<open>
  A region with two scalars at handles 0 and 1, of counts 2 and 1; at handle 2 a
  reference array that holds handle 0, an entry never used, handle 1 and an entry
  removed; at handle 3 a list whose child is handle 2.
\<close>

definition array_of01 :: "32 value_t" where
  "array_of01 = \<lparr>type = VAL_REF_ARRAY, ref_count = 1, value_size = 48,
                  payload = Ref_array_data [0, NULL_REF, 1, TOMBSTONE_REF]\<rparr>"

definition list_of2 :: "32 value_t" where
  "list_of2 = \<lparr>type = VAL_LIST, ref_count = 1, value_size = 32, payload = List_data 2\<rparr>"

definition tree4 :: "32 state" where
  "tree4 = \<lparr>mem = (\<lambda>_. blank_value)
                (4096 := scalar24\<lparr>ref_count := 2\<rparr>, 4120 := scalar24,
                 4144 := array_of01, 4192 := list_of2),
            mm_base = 4096, mm_size = 2048,
            blocks = [Block 4096 24 True, Block 4120 24 True, Block 4144 48 True,
                      Block 4192 32 True, Block 4224 1920 False],
            released = [], from_space = 4096, to_space = 6144, pool_size = 2048,
            ref_table = [Some 4096, Some 4120, Some 4144, Some 4192], max_refs = 8,
            host_slots = 1024\<rparr>"

text \<open>
  A region with two scalars at handles 0 and 1, of counts 2 and 1, and at handle 2 a
  dictionary whose keys and values are handles 0 and 1.
\<close>

definition dict_of01 :: "32 value_t" where
  "dict_of01 = \<lparr>type = VAL_DICT, ref_count = 1, value_size = 32, payload = Dict_data 0 1\<rparr>"

definition dict3 :: "32 state" where
  "dict3 = \<lparr>mem = (\<lambda>_. blank_value)
                (4096 := scalar24\<lparr>ref_count := 2\<rparr>, 4120 := scalar24, 4144 := dict_of01),
            mm_base = 4096, mm_size = 2048,
            blocks = [Block 4096 24 True, Block 4120 24 True, Block 4144 32 True,
                      Block 4176 1968 False],
            released = [], from_space = 4096, to_space = 6144, pool_size = 2048,
            ref_table = [Some 4096, Some 4120, Some 4144], max_refs = 8,
            host_slots = 1024\<rparr>"

section \<open>Creating a value\<close>



text \<open>
  C5. When the allocator cannot serve the request (rounded up to the alignment),
  \<open>make_ref\<close> returns \<open>NULL_REF\<close> and the state it leaves is the state it found: the
  table, its number of slots and its capacity are untouched.
\<close>

theorem make_ref_allocation_failure:
  "fst (mm_malloc (((sz + ALIGNMENT - 1) mod 2 ^ 64) div ALIGNMENT * ALIGNMENT) s) = None
   \<Longrightarrow> make_ref initial_size header_size ty sz s = Inr (NULL_REF, s)
       \<and> ref_table (snd (projr (make_ref initial_size header_size ty sz s))) = ref_table s
       \<and> num_refs (snd (projr (make_ref initial_size header_size ty sz s))) = num_refs s
       \<and> max_refs (snd (projr (make_ref initial_size header_size ty sz s))) = max_refs s"
  by (auto simp: make_ref_def mm_malloc_def Let_def split: option.splits prod.splits if_splits)

theorem make_ref_allocation_failure_witness:
  "fst (mm_malloc (((40 + ALIGNMENT - 1) mod 2 ^ 64) div ALIGNMENT * ALIGNMENT) arena64) = None
   \<and> make_ref 8 16 VAL_SCALAR 40 arena64 = Inr (NULL_REF, arena64)"
proof -
  have h: "fst (mm_malloc (((40 + ALIGNMENT - 1) mod 2 ^ 64) div ALIGNMENT * ALIGNMENT) arena64)
           = None"
    by (simp add: mm_malloc_def arena64_def init_refs_def mm_init_def blank_def ALIGNMENT_def
        Let_def)
  show ?thesis using h make_ref_allocation_failure [OF h, of 8 16 VAL_SCALAR] by simp
qed




section \<open>Decrementing a count\<close>

text \<open>
  C9. For a handle within the table whose slot holds no address of the active region
  (the slot is unused, or holds a stale address), \<open>decref\<close> returns normally and leaves
  the whole state as it found it, whatever the depth allowed.
\<close>

theorem decref_inactive_slot_noop:
  "0 \<le> ref \<Longrightarrow> ref < int (num_refs s) \<Longrightarrow> \<not> is_pool_address (ref_table s ! nat ref) s
   \<Longrightarrow> decref (Suc n) ref s = Inr s"
  by (simp add: table_at_def)

theorem decref_inactive_slot_noop_witness:
  "(0::int) \<le> 1 \<and> 1 < int (num_refs (heap4\<lparr>ref_table := [Some 4096, None, Some 9000]\<rparr>))
   \<and> \<not> is_pool_address (ref_table (heap4\<lparr>ref_table := [Some 4096, None, Some 9000]\<rparr>) ! nat 1)
         (heap4\<lparr>ref_table := [Some 4096, None, Some 9000]\<rparr>)
   \<and> decref (Suc 0) 1 (heap4\<lparr>ref_table := [Some 4096, None, Some 9000]\<rparr>)
       = Inr (heap4\<lparr>ref_table := [Some 4096, None, Some 9000]\<rparr>)
   \<and> \<not> is_pool_address (ref_table (heap4\<lparr>ref_table := [Some 4096, None, Some 9000]\<rparr>) ! nat 2)
         (heap4\<lparr>ref_table := [Some 4096, None, Some 9000]\<rparr>)
   \<and> decref (Suc 0) 2 (heap4\<lparr>ref_table := [Some 4096, None, Some 9000]\<rparr>)
       = Inr (heap4\<lparr>ref_table := [Some 4096, None, Some 9000]\<rparr>)"
proof -
  let ?s = "heap4\<lparr>ref_table := [Some 4096, None, Some 9000]\<rparr>"
  have n: "num_refs ?s = 3" by (simp add: num_refs_def)
  have h1: "(0::int) \<le> 1" and h2: "1 < int (num_refs ?s)" and h2': "2 < int (num_refs ?s)"
    and h0: "(0::int) \<le> 2"
    using n by simp_all
  have h3: "\<not> is_pool_address (ref_table ?s ! nat 1) ?s"
    by (simp add: is_pool_address_def)
  have h4: "\<not> is_pool_address (ref_table ?s ! nat 2) ?s"
    by (simp add: is_pool_address_def heap4_def)
  show ?thesis
    using h1 h2 h3 h4 decref_inactive_slot_noop [OF h1 h2 h3, of 0]
      decref_inactive_slot_noop [OF h0 h2' h4, of 0]
    by simp
qed

section \<open>What decrementing does to the table and the pool\<close>

lemma traverse_decref_array_filter:
  "traverse_decref_array n arr s =
     foreach_global (decref n) (filter (\<lambda>r. r \<noteq> NULL_REF \<and> r \<noteq> TOMBSTONE_REF) arr) s"
  by (induction arr arbitrary: s) (auto split: sum.splits)

lemma traverse_decref_children:
  "traverse_decref n a s =
     (case children (mem s a) of
        None \<Rightarrow> Inl Bad_payload
      | Some cs \<Rightarrow> foreach_global (decref n) cs s)"
  by (auto simp: children_def traverse_decref_array_filter split: payload.splits sum.splits)

lemma decref_Suc:
  "decref (Suc n) r s =
     (if \<not> (0 \<le> r \<and> r < int (num_refs s)) then Inl Out_of_bounds
      else (case ref_table s ! nat r of
              None \<Rightarrow> Inr s
            | Some a \<Rightarrow>
                if \<not> is_pool_address (Some a) s then Inr s
                else if ref_count (mem s a) \<noteq> 1 then Inr (dec_count a s)
                else (case children (mem s a) of
                        None \<Rightarrow> Inl Bad_payload
                      | Some cs \<Rightarrow>
                          (case foreach_global (decref n) cs (clear_slot (nat r) (dec_count a s)) of
                             Inl e \<Rightarrow> Inl e
                           | Inr s3 \<Rightarrow> Inr (mm_free a s3)))))"
proof -
  have z: "(0 < x - 1) = (x \<noteq> 1)" for x :: "'a word"
    by (simp add: word_greater_zero_iff)
  have c: "children (v\<lparr>ref_count := x\<rparr>) = children v" for v :: "'a value_t" and x
    by (simp add: children_def)
  show ?thesis
    unfolding decref.simps(2) traverse_decref_children
    by (simp add: table_at_def deref_def Let_def z c dec_count_def clear_slot_def
        is_pool_address_def
        del: decref.simps traverse_decref.simps
        split: option.splits sum.splits)
qed

lemma is_pool_address_upd [simp]:
  "is_pool_address p (dec_count a s) = is_pool_address p s"
  "is_pool_address p (clear_slot i s) = is_pool_address p s"
  "is_pool_address p (mm_free a s) = is_pool_address p s"
  by (cases p; simp add: is_pool_address_def dec_count_def clear_slot_def mm_free_def)+

lemma ref_table_upd [simp]:
  "ref_table (dec_count a s) = ref_table s"
  "ref_table (clear_slot i s) = (ref_table s)[i := None]"
  "ref_table (mm_free a s) = ref_table s"
  by (simp_all add: dec_count_def clear_slot_def mm_free_def)

lemma mem_upd [simp]:
  "mem (dec_count a s) = (mem s)(a := (mem s a)\<lparr>ref_count := ref_count (mem s a) - 1\<rparr>)"
  "mem (clear_slot i s) = mem s"
  "mem (mm_free a s) = mem s"
  by (simp_all add: dec_count_def clear_slot_def mm_free_def)

lemma foreach_global_run:
  assumes "\<And>r s s'. f r s = Inr s' \<Longrightarrow> dec_run s s'"
  shows "foreach_global f rs s = Inr s' \<Longrightarrow> dec_run s s'"
proof (induction rs arbitrary: s)
  case Nil
  then show ?case by (simp add: dec_run.skip)
next
  case (Cons r rs)
  from Cons.prems obtain s1 where 1: "f r s = Inr s1" and 2: "foreach_global f rs s1 = Inr s'"
    by (auto split: sum.splits)
  from assms[OF 1] Cons.IH[OF 2] show ?case by (rule dec_run.seq)
qed

lemma decref_run: "decref n r s = Inr s' \<Longrightarrow> dec_run s s'"
proof (induction n arbitrary: r s s')
  case 0
  then show ?case by simp
next
  case (Suc n)
  have fg: "dec_run t t'" if h: "foreach_global (decref n) rs t = Inr t'"
    for rs and t t' :: "'a state"
    by (rule foreach_global_run[where f = "decref n", OF _ h]) (erule Suc.IH)
  from Suc.prems have rng: "0 \<le> r" "r < int (num_refs s)"
    by (auto simp: decref_Suc simp del: decref.simps split: if_splits)
  then have lt: "nat r < length (ref_table s)" by (simp add: num_refs_def)
  show ?case
  proof (cases "ref_table s ! nat r")
    case None
    with Suc.prems rng show ?thesis
      by (simp add: decref_Suc dec_run.skip del: decref.simps)
  next
    case (Some a)
    show ?thesis
    proof (cases "is_pool_address (Some a) s")
      case False
      with Some Suc.prems rng show ?thesis
        by (simp add: decref_Suc dec_run.skip del: decref.simps)
    next
      case True
      show ?thesis
      proof (cases "ref_count (mem s a) = 1")
        case False
        with Some True Suc.prems rng have "s' = dec_count a s"
          by (simp add: decref_Suc del: decref.simps)
        with dec_run.dec[OF lt Some True False] show ?thesis by simp
      next
        case one: True
        with Some True Suc.prems rng obtain cs s3 where
          "foreach_global (decref n) cs (clear_slot (nat r) (dec_count a s)) = Inr s3"
          "s' = mm_free a s3"
          by (auto simp: decref_Suc simp del: decref.simps split: option.splits sum.splits)
        with fg dec_run.zero[OF lt Some True one] show ?thesis by blast
      qed
    qed
  qed
qed

lemma traverse_decref_run: "traverse_decref n a s = Inr s' \<Longrightarrow> dec_run s s'"
  unfolding traverse_decref_children
  by (auto split: option.splits intro: foreach_global_run decref_run)

text \<open>What a run leaves alone.\<close>

lemma dec_run_frame:
  "dec_run s s' \<Longrightarrow>
     length (ref_table s') = length (ref_table s) \<and> mm_base s' = mm_base s
     \<and> mm_size s' = mm_size s \<and> from_space s' = from_space s \<and> to_space s' = to_space s
     \<and> pool_size s' = pool_size s \<and> max_refs s' = max_refs s \<and> host_slots s' = host_slots s"
  by (induction rule: dec_run.induct) (simp_all add: dec_count_def clear_slot_def mm_free_def)

lemma dec_run_pool: "dec_run s s' \<Longrightarrow> is_pool_address p s' = is_pool_address p s"
  using dec_run_frame[of s s'] by (cases p) (simp_all add: is_pool_address_def)

lemma dec_run_num_refs: "dec_run s s' \<Longrightarrow> num_refs s' = num_refs s"
  using dec_run_frame[of s s'] by (simp add: num_refs_def)

lemma dec_run_slots:
  "dec_run s s' \<Longrightarrow> i < length (ref_table s) \<Longrightarrow>
     ref_table s' ! i = ref_table s ! i
     \<or> (ref_table s' ! i = None \<and> is_pool_address (ref_table s ! i) s)"
proof (induction arbitrary: i rule: dec_run.induct)
  case (skip s)
  then show ?case by simp
next
  case (dec i s a)
  then show ?case by simp
next
  case (zero j s a s3)
  let ?s0 = "clear_slot j (dec_count a s)"
  have "i < length (ref_table ?s0)"
    using zero.prems by simp
  from zero.IH[OF this] have ih: "ref_table s3 ! i = ref_table ?s0 ! i
      \<or> (ref_table s3 ! i = None \<and> is_pool_address (ref_table ?s0 ! i) s)" by simp
  show ?case
  proof (cases "i = j")
    case True
    with zero.prems have "ref_table ?s0 ! i = None" by simp
    with ih have "ref_table s3 ! i = None" by (simp add: is_pool_address_def)
    with True zero.hyps(2,3) show ?thesis by simp
  next
    case False
    then have "ref_table ?s0 ! i = ref_table s ! i" by simp
    with ih show ?thesis by simp
  qed
next
  case (seq s s1 s2)
  from seq.prems dec_run_frame[OF seq.hyps(1)] have "i < length (ref_table s1)" by simp
  from seq.IH(2)[OF this] seq.IH(1)[OF seq.prems]
  show ?case unfolding dec_run_pool[OF seq.hyps(1)] by (elim disjE conjE) simp_all
qed

lemma dec_run_mem:
  "dec_run s s' \<Longrightarrow>
     type (mem s' a) = type (mem s a) \<and> value_size (mem s' a) = value_size (mem s a)
     \<and> payload (mem s' a) = payload (mem s a)"
  by (induction rule: dec_run.induct) (simp_all add: dec_count_def clear_slot_def mm_free_def)

lemma dec_run_children: "dec_run s s' \<Longrightarrow> children (mem s' a) = children (mem s a)"
  using dec_run_mem[of s s' a] by (simp add: children_def)

lemma dec_run_mem_outside:
  "dec_run s s' \<Longrightarrow> \<not> is_pool_address (Some a) s \<Longrightarrow> mem s' a = mem s a"
proof (induction rule: dec_run.induct)
  case (zero j s b s3)
  then show ?case by auto
next
  case (seq s s1 s2)
  with dec_run_pool[OF seq.hyps(1)] show ?case by simp
qed auto

lemma mem_used_used_bytes: "mem_used s = used_bytes (blocks s)"
  by (simp add: mem_used_def used_bytes_def)

lemma blocks_mm_free [simp]: "blocks (mm_free a s) = free_in a (blocks s)"
  by (simp add: mm_free_def free_in_def)

lemma chain_le: "chain a bs e \<Longrightarrow> a \<le> e"
proof (induction bs arbitrary: a)
  case Nil
  then show ?case by simp
next
  case (Cons b bs)
  from Cons.prems have "chain (a + b_size b) bs e" by simp
  from Cons.IH[OF this] show ?case by simp
qed

lemma chain_free_in: "chain a (free_in x bs) e = chain a bs e"
  by (induction bs arbitrary: a) (auto simp: free_in_def)

lemma used_pos_free_in:
  "list_all (\<lambda>b. b_used b \<longrightarrow> 0 < b_size b) bs
   \<Longrightarrow> list_all (\<lambda>b. b_used b \<longrightarrow> 0 < b_size b) (free_in x bs)"
  by (induction bs) (auto simp: free_in_def)

text \<open>A used block lies in the region, and no other used block starts at its address.\<close>

lemma chain_used_bounds:
  "chain a bs e \<Longrightarrow> list_all (\<lambda>b. b_used b \<longrightarrow> 0 < b_size b) bs \<Longrightarrow> b \<in> set bs
   \<Longrightarrow> a \<le> b_addr b \<and> b_addr b + b_size b \<le> e"
proof (induction bs arbitrary: a)
  case Nil
  then show ?case by simp
next
  case (Cons c bs)
  show ?case
  proof (cases "b = c")
    case True
    with Cons.prems chain_le[of "a + b_size c" bs e] show ?thesis by auto
  next
    case False
    with Cons.prems have "b \<in> set bs" "chain (a + b_size c) bs e"
      "list_all (\<lambda>b. b_used b \<longrightarrow> 0 < b_size b) bs" by auto
    from Cons.IH[OF this(2,3,1)] show ?thesis by auto
  qed
qed

lemma chain_used_unique:
  "chain a bs e \<Longrightarrow> list_all (\<lambda>b. b_used b \<longrightarrow> 0 < b_size b) bs
   \<Longrightarrow> distinct (map b_addr (filter b_used bs))"
proof (induction bs arbitrary: a)
  case Nil
  then show ?case by simp
next
  case (Cons c bs)
  then have ih: "distinct (map b_addr (filter b_used bs))" by auto
  show ?case
  proof (cases "b_used c")
    case False
    with ih show ?thesis by simp
  next
    case True
    with Cons.prems have pos: "0 < b_size c" and ch: "chain (a + b_size c) bs e"
      and ca: "b_addr c = a" and up: "list_all (\<lambda>b. b_used b \<longrightarrow> 0 < b_size b) bs" by auto
    have "b_addr c \<notin> b_addr ` set (filter b_used bs)"
    proof
      assume "b_addr c \<in> b_addr ` set (filter b_used bs)"
      then obtain d where d: "d \<in> set bs" "b_addr d = b_addr c" by auto
      from chain_used_bounds[OF ch up d(1)] d(2) ca pos show False by simp
    qed
    with ih True show ?thesis by simp
  qed
qed

lemma used_bytes_free_in:
  assumes "distinct (map b_addr (filter b_used bs))" "Block x n True \<in> set bs"
  shows "used_bytes (free_in x bs) + n = used_bytes bs"
  using assms
proof (induction bs)
  case Nil
  then show ?case by simp
next
  case (Cons c bs)
  show ?case
  proof (cases "c = Block x n True")
    case True
    with Cons.prems have "x \<notin> b_addr ` set (filter b_used bs)" by auto
    then have "free_in x bs = bs"
      by (auto simp: free_in_def intro!: map_idI)
    with True show ?thesis by (simp add: used_bytes_def free_in_def)
  next
    case False
    with Cons.prems have in': "Block x n True \<in> set bs" by auto
    from Cons.prems have d: "distinct (map b_addr (filter b_used bs))" by (auto split: if_splits)
    have "\<not> (b_addr c = x \<and> b_used c)"
    proof
      assume h: "b_addr c = x \<and> b_used c"
      from in' have "x \<in> b_addr ` set (filter b_used bs)" by force
      with h Cons.prems(1) show False by auto
    qed
    with Cons.IH[OF d in'] show ?thesis by (auto simp: used_bytes_def free_in_def)
  qed
qed

lemma used_bytes_free_in_le: "used_bytes (free_in x bs) \<le> used_bytes bs"
  by (induction bs) (auto simp: used_bytes_def free_in_def)

lemma set_free_in_used:
  "Block y n True \<in> set (free_in x bs) \<longleftrightarrow> Block y n True \<in> set bs \<and> y \<noteq> x"
  by (induction bs) (auto simp: free_in_def)

lemma used_addr_free_in:
  "b \<in> set (free_in x bs) \<Longrightarrow> b_used b \<Longrightarrow> b \<in> set bs \<and> b_addr b \<noteq> x"
  by (induction bs) (auto simp: free_in_def split: if_splits)

text \<open>First fit.\<close>

lemma first_fit_sound:
  assumes "first_fit n bs = Some (x, bs')" "0 < n" "chain a bs e"
    "list_all (\<lambda>b. b_used b \<longrightarrow> 0 < b_size b) bs"
  shows "chain a bs' e \<and> list_all (\<lambda>b. b_used b \<longrightarrow> 0 < b_size b) bs'
         \<and> a \<le> x \<and> x < e \<and> x \<notin> b_addr ` set (filter b_used bs)
         \<and> set (filter b_used bs') = insert (Block x n True) (set (filter b_used bs))
         \<and> used_bytes bs' = used_bytes bs + n"
  using assms
proof (induction bs arbitrary: a bs')
  case Nil
  then show ?case by simp
next
  case (Cons c bs)
  from Cons.prems have ca: "b_addr c = a" and ch: "chain (a + b_size c) bs e"
    and up: "list_all (\<lambda>b. b_used b \<longrightarrow> 0 < b_size b) bs" by auto
  show ?case
  proof (cases "\<not> b_used c \<and> n \<le> b_size c")
    case True
    with Cons.prems have x: "x = a"
      and bs': "bs' = Block a n True #
         (if n < b_size c then [Block (a + n) (b_size c - n) False] else []) @ bs"
      by (auto split: if_splits)
    have nin: "x \<notin> b_addr ` set (filter b_used bs)"
    proof
      assume "x \<in> b_addr ` set (filter b_used bs)"
      then obtain d where d: "d \<in> set bs" "b_addr d = x" by auto
      from chain_used_bounds[OF ch up d(1)] d(2) x True \<open>0 < n\<close> show False by simp
    qed
    have lt: "x < e" using chain_le[OF ch] True \<open>0 < n\<close> x by simp
    from True have eq: "n = b_size c" if "\<not> n < b_size c" using that by simp
    show ?thesis using True ch up nin lt x \<open>0 < n\<close> eq unfolding bs'
      by (auto simp: used_bytes_def)
  next
    case False
    with Cons.prems obtain bs2 where ff: "first_fit n bs = Some (x, bs2)" and bs': "bs' = c # bs2"
      by (auto split: option.splits)
    from Cons.IH[OF ff \<open>0 < n\<close> ch up] have ih: "chain (a + b_size c) bs2 e"
      "list_all (\<lambda>b. b_used b \<longrightarrow> 0 < b_size b) bs2" "a + b_size c \<le> x" "x < e"
      "x \<notin> b_addr ` set (filter b_used bs)"
      "set (filter b_used bs2) = insert (Block x n True) (set (filter b_used bs))"
      "used_bytes bs2 = used_bytes bs + n" by auto
    have "b_used c \<Longrightarrow> b_addr c \<noteq> x" using Cons.prems(4) ca ih(3) by auto
    with ih ca Cons.prems(4) show ?thesis unfolding bs'
      by (auto simp: used_bytes_def)
  qed
qed

lemma chain_total:
  "chain a bs e \<Longrightarrow> a + sum_list (map b_size bs) = e"
proof (induction bs arbitrary: a)
  case Nil
  then show ?case by simp
next
  case (Cons b bs)
  from Cons.prems have "chain (a + b_size b) bs e" by simp
  from Cons.IH[OF this] show ?case by simp
qed

lemma first_fit_compact:
  assumes "compact bs" "chain a bs e" "0 < n" "a + used_bytes bs + n \<le> e"
  shows "\<exists>x bs'. first_fit n bs = Some (x, bs') \<and> compact bs'"
proof -
  from assms(1) obtain us fs where bs: "bs = us @ fs" and us: "list_all b_used us"
    and fs: "fs = [] \<or> (\<exists>b. fs = [b] \<and> \<not> b_used b)" by (auto simp: compact_def)
  have ub: "used_bytes bs = sum_list (map b_size us)"
    using us fs bs by (auto simp: used_bytes_def list_all_iff filter_id_conv)
  from chain_total[OF assms(2)] have tot: "a + sum_list (map b_size us) + sum_list (map b_size fs) = e"
    by (simp add: bs)
  from fs tot ub assms(3,4) obtain b where b: "fs = [b]" "\<not> b_used b" "n \<le> b_size b"
    by auto
  have "\<exists>bs2. first_fit n (us @ [b]) = Some (b_addr b, us @ bs2) \<and>
          (bs2 = [Block (b_addr b) n True] \<or> bs2 = [Block (b_addr b) n True, Block (b_addr b + n) (b_size b - n) False])"
    using us b(2,3) by (induction us) (auto simp: list_all_iff)
  then obtain bs2 where r: "first_fit n bs = Some (b_addr b, us @ bs2)"
    and s: "bs2 = [Block (b_addr b) n True]
            \<or> bs2 = [Block (b_addr b) n True, Block (b_addr b + n) (b_size b - n) False]"
    using bs b(1) by auto
  have "compact (us @ bs2)"
  proof -
    from s show ?thesis
    proof
      assume "bs2 = [Block (b_addr b) n True]"
      then show ?thesis using us unfolding compact_def
        by (intro exI[of _ "us @ bs2"] exI[of _ "[]"]) simp
    next
      assume h: "bs2 = [Block (b_addr b) n True, Block (b_addr b + n) (b_size b - n) False]"
      show ?thesis using us unfolding compact_def h
        by (intro exI[of _ "us @ [Block (b_addr b) n True]"]
            exI[of _ "[Block (b_addr b + n) (b_size b - n) False]"]) simp
    qed
  qed
  with r show ?thesis by blast
qed

lemma live_at_upd [simp]:
  "live_at (dec_count a s) i b = live_at s i b"
  "live_at (mm_free a s) i b = live_at s i b"
  by (simp_all add: live_at_def)

lemma live_at_clear: "live_at (clear_slot j s) i b = (live_at s i b \<and> i \<noteq> j)"
  by (cases "i = j") (auto simp: live_at_def)

lemma blocks_upd [simp]:
  "blocks (dec_count a s) = blocks s"
  "blocks (clear_slot i s) = blocks s"
  "released (dec_count a s) = released s"
  "released (clear_slot i s) = released s"
  "released (mm_free a s) = a # released s"
  by (simp_all add: dec_count_def clear_slot_def mm_free_def)

lemma alloc_ok_upd [simp]:
  "alloc_ok (dec_count a s) = alloc_ok s"
  "alloc_ok (clear_slot i s) = alloc_ok s"
  by (simp_all add: alloc_ok_def dec_count_def clear_slot_def)

lemma alloc_ok_mm_free: "alloc_ok s \<Longrightarrow> alloc_ok (mm_free a s)"
  by (simp add: alloc_ok_def chain_free_in used_pos_free_in mm_free_def flip: free_in_def)

lemma dec_run_live:
  "dec_run s s' \<Longrightarrow> live_at s' i a \<Longrightarrow> live_at s i a"
  using dec_run_slots[of s s' i] dec_run_frame[of s s'] dec_run_pool[of s s']
  by (auto simp: live_at_def)

lemma dec_run_dead:
  "dec_run s s' \<Longrightarrow> i < length (ref_table s) \<Longrightarrow> ref_table s ! i = None
   \<Longrightarrow> ref_table s' ! i = None"
  using dec_run_slots[of s s' i] by auto

text \<open>What a run releases: addresses that were live, from slots it has cleared.\<close>

lemma dec_run_released:
  "dec_run s s' \<Longrightarrow>
     \<exists>new. released s' = new @ released s \<and> blocks s' = foldr free_in new (blocks s)
         \<and> (\<forall>a\<in>set new. \<exists>i. live_at s i a \<and> ref_table s' ! i = None)"
proof (induction rule: dec_run.induct)
  case (skip s)
  then show ?case by simp
next
  case (dec i s a)
  then show ?case by simp
next
  case (zero i s a s3)
  let ?s0 = "clear_slot i (dec_count a s)"
  from zero.IH obtain new where n: "released s3 = new @ released s"
    "blocks s3 = foldr free_in new (blocks s)"
    "\<forall>b\<in>set new. \<exists>j. live_at ?s0 j b \<and> ref_table s3 ! j = None" by auto
  have i0: "ref_table s3 ! i = None"
    using dec_run_dead[OF zero.hyps(5), of i] zero.hyps(1) by simp
  have "\<forall>b\<in>set (a # new). \<exists>j. live_at s j b \<and> ref_table (mm_free a s3) ! j = None"
    using n(3) i0 zero.hyps(1-3) by (auto simp: live_at_clear) (auto simp: live_at_def)
  with n(1,2) show ?case
    by (intro exI[of _ "a # new"]) simp
next
  case (seq s s1 s2)
  from seq.IH obtain n1 n2 where n1: "released s1 = n1 @ released s"
    "blocks s1 = foldr free_in n1 (blocks s)"
    "\<forall>a\<in>set n1. \<exists>i. live_at s i a \<and> ref_table s1 ! i = None"
    and n2: "released s2 = n2 @ released s1" "blocks s2 = foldr free_in n2 (blocks s1)"
    "\<forall>a\<in>set n2. \<exists>i. live_at s1 i a \<and> ref_table s2 ! i = None" by blast
  have a: "\<exists>i. live_at s i a \<and> ref_table s2 ! i = None" if "a \<in> set n1" for a
  proof -
    from n1(3) that obtain i where i: "live_at s i a" "ref_table s1 ! i = None" by auto
    then have "i < length (ref_table s1)" using dec_run_frame[OF seq.hyps(1)]
      by (simp add: live_at_def)
    from dec_run_dead[OF seq.hyps(2) this i(2)] i(1) show ?thesis by auto
  qed
  have b: "\<exists>i. live_at s i a \<and> ref_table s2 ! i = None" if "a \<in> set n2" for a
    using n2(3) that dec_run_live[OF seq.hyps(1)] by blast
  show ?case using n1(1,2) n2(1,2) a b
    by (intro exI[of _ "n2 @ n1"]) auto
qed

lemma foldr_free_in_keeps:
  "a \<notin> set new \<Longrightarrow> Block a n True \<in> set bs \<Longrightarrow> Block a n True \<in> set (foldr free_in new bs)"
  by (induction new) (auto simp: set_free_in_used)

lemma dec_run_wf: "dec_run s s' \<Longrightarrow> wf s \<Longrightarrow> wf s'"
proof (induction rule: dec_run.induct)
  case (skip s)
  then show ?case by simp
next
  case (dec i s a)
  then show ?case by (simp add: wf_def inj_slots_def sized_def)
next
  case (zero i s a s3)
  let ?s0 = "clear_slot i (dec_count a s)"
  from zero.prems have "wf ?s0"
    by (auto simp: wf_def inj_slots_def sized_def live_at_clear)
  from zero.IH[OF this] have w3: "alloc_ok s3" "inj_slots s3" "sized s3" by (simp_all add: wf_def)
  have la: "live_at s i a" using zero.hyps(1-3) by (simp add: live_at_def)
  have ne: "b \<noteq> a" if "live_at s3 j b" for j b
  proof
    assume "b = a"
    from dec_run_live[OF zero.hyps(5) that] have "live_at s j b" "j \<noteq> i"
      by (simp_all add: live_at_clear)
    with la \<open>b = a\<close> zero.prems show False by (auto simp: wf_def inj_slots_def)
  qed
  have "sized (mm_free a s3)"
    using w3(3) ne by (auto simp: sized_def set_free_in_used)
  with w3 show ?case by (simp add: wf_def alloc_ok_mm_free inj_slots_def)
next
  case (seq s s1 s2)
  then show ?case by simp
qed

lemma filter_update_count:
  "i < length xs \<Longrightarrow> P (xs ! i) \<Longrightarrow> \<not> P y
   \<Longrightarrow> length (filter P (xs[i := y])) + 1 = length (filter P xs)"
proof (induction xs arbitrary: i)
  case Nil
  then show ?case by simp
next
  case (Cons x xs)
  show ?case
  proof (cases i)
    case 0
    with Cons.prems show ?thesis by simp
  next
    case (Suc k)
    with Cons.prems have "k < length xs" "P (xs ! k)" by simp_all
    from Cons.IH[OF this Cons.prems(3)] Suc show ?thesis by simp
  qed
qed

lemma filter_count_mono:
  "length xs = length ys \<Longrightarrow> \<forall>i<length xs. P (ys ! i) \<longrightarrow> Q (xs ! i)
   \<Longrightarrow> length (filter P ys) \<le> length (filter Q xs)"
proof (induction xs ys rule: list_induct2)
  case Nil
  then show ?case by simp
next
  case (Cons x xs y ys)
  from Cons.prems have "\<forall>i<length xs. P (ys ! i) \<longrightarrow> Q (xs ! i)" by auto
  from Cons.IH[OF this] Cons.prems show ?case by auto
qed

lemma is_pool_None [simp]: "\<not> is_pool_address None s"
  by (simp add: is_pool_address_def)

lemma pool_count_le: "pool_count s \<le> num_refs s"
  by (simp add: pool_count_def num_refs_def)

lemma dec_run_pool_count: "dec_run s s' \<Longrightarrow> pool_count s' \<le> pool_count s"
  unfolding pool_count_def
proof (rule filter_count_mono)
  assume r: "dec_run s s'"
  show "length (ref_table s) = length (ref_table s')" using dec_run_frame[OF r] by simp
  show "\<forall>i<length (ref_table s).
          is_pool_address (ref_table s' ! i) s' \<longrightarrow> is_pool_address (ref_table s ! i) s"
  proof (intro allI impI)
    fix i assume i: "i < length (ref_table s)" and p: "is_pool_address (ref_table s' ! i) s'"
    from dec_run_slots[OF r i] p show "is_pool_address (ref_table s ! i) s"
      by (auto simp: dec_run_pool[OF r])
  qed
qed

lemma pool_count_clear:
  "i < length (ref_table s) \<Longrightarrow> is_pool_address (ref_table s ! i) s
   \<Longrightarrow> pool_count (clear_slot i (dec_count a s)) + 1 = pool_count s"
  unfolding pool_count_def
  using filter_update_count[of i "ref_table s" "\<lambda>p. is_pool_address p s" None]
  by simp

lemma refs_used_clear:
  "i < length (ref_table (s :: 'w::len state)) \<Longrightarrow> ref_table s ! i = Some b
   \<Longrightarrow> refs_used (clear_slot i s) + 1 = refs_used s"
  unfolding refs_used_def
  using filter_update_count[of i "ref_table s" "\<lambda>p. p \<noteq> None" None] by simp

lemma refs_used_upd [simp]:
  "refs_used (dec_count a s) = refs_used s"
  "refs_used (mm_free a s) = refs_used s"
  by (simp_all add: refs_used_def)

lemma mem_used_upd [simp]:
  "mem_used (dec_count a s) = mem_used s"
  "mem_used (clear_slot i s) = mem_used s"
  by (simp_all add: mem_used_def)

text \<open>Every release takes one value out of the table and its bytes out of the pool.\<close>

lemma dec_run_account:
  "dec_run s s' \<Longrightarrow> wf s \<Longrightarrow>
     \<exists>new. released s' = new @ released s
         \<and> refs_used s' + length new = refs_used s
         \<and> mem_used s' + sum_list (map (\<lambda>a. value_size (mem s a)) new) = mem_used s"
proof (induction rule: dec_run.induct)
  case (skip s)
  then show ?case by simp
next
  case (dec i s a)
  then show ?case by simp
next
  case (zero i s a s3)
  let ?s0 = "clear_slot i (dec_count a s)"
  have la: "live_at s i a" using zero.hyps(1-3) by (simp add: live_at_def)
  from zero.prems have w0: "wf ?s0"
    by (auto simp: wf_def inj_slots_def sized_def live_at_clear)
  from zero.IH[OF w0] obtain new where n: "released s3 = new @ released s"
    "refs_used s3 + length new = refs_used ?s0"
    "mem_used s3 + sum_list (map (\<lambda>b. value_size (mem ?s0 b)) new) = mem_used s"
    by auto
  have vs: "value_size (mem ?s0 b) = value_size (mem s b)" for b by simp
  have ru: "refs_used ?s0 + 1 = refs_used s"
    using refs_used_clear[OF zero.hyps(1), of a] zero.hyps(2)
    by (simp add: refs_used_def)
  from dec_run_released[OF zero.hyps(5)] n(1) obtain
    bl: "blocks s3 = foldr free_in new (blocks s)"
    and lv: "\<forall>b\<in>set new. \<exists>j. live_at ?s0 j b" by auto
  have "a \<notin> set new"
  proof
    assume "a \<in> set new"
    with lv obtain j where "live_at s j a" "j \<noteq> i" by (auto simp: live_at_clear)
    with la zero.prems show False by (auto simp: wf_def inj_slots_def)
  qed
  moreover from zero.prems la have "Block a (value_size (mem s a)) True \<in> set (blocks s)"
    by (auto simp: wf_def sized_def)
  ultimately have "Block a (value_size (mem s a)) True \<in> set (blocks s3)"
    unfolding bl by (rule foldr_free_in_keeps)
  moreover from dec_run_wf[OF zero.hyps(5) w0] have "alloc_ok s3" by (simp add: wf_def)
  then have "distinct (map b_addr (filter b_used (blocks s3)))"
    by (auto simp: alloc_ok_def intro: chain_used_unique)
  ultimately have "mem_used (mm_free a s3) + value_size (mem s a) = mem_used s3"
    by (simp add: mem_used_used_bytes used_bytes_free_in)
  with n ru show ?case unfolding vs
    by (intro exI[of _ "a # new"]) simp
next
  case (seq s s1 s2)
  from seq.IH(1)[OF seq.prems] obtain n1 where n1: "released s1 = n1 @ released s"
    "refs_used s1 + length n1 = refs_used s"
    "mem_used s1 + sum_list (map (\<lambda>a. value_size (mem s a)) n1) = mem_used s" by auto
  from seq.IH(2)[OF dec_run_wf[OF seq.hyps(1) seq.prems]] obtain n2 where
    n2: "released s2 = n2 @ released s1" "refs_used s2 + length n2 = refs_used s1"
    "mem_used s2 + sum_list (map (\<lambda>a. value_size (mem s1 a)) n2) = mem_used s1" by auto
  have "value_size (mem s1 a) = value_size (mem s a)" for a
    using dec_run_mem[OF seq.hyps(1)] by simp
  with n1 n2 show ?case
    by (intro exI[of _ "n2 @ n1"]) simp
qed

lemma dec_run_pool_heap_ok: "dec_run s s' \<Longrightarrow> pool_heap_ok s \<Longrightarrow> pool_heap_ok s'"
  unfolding pool_heap_ok_def
  using dec_run_live[of s s'] dec_run_children[of s s'] dec_run_num_refs[of s s']
  by metis

lemma foreach_decref_total:
  assumes ih: "\<And>r s. 0 \<le> r \<Longrightarrow> r < int (num_refs s) \<Longrightarrow> pool_heap_ok s \<Longrightarrow> pool_count s < n
                 \<Longrightarrow> \<exists>s'. decref n r (s :: 'w::len state) = Inr s'"
  shows "\<forall>c\<in>set cs. 0 \<le> c \<and> c < int (num_refs (s :: 'w state)) \<Longrightarrow> pool_heap_ok s
         \<Longrightarrow> pool_count s < n
         \<Longrightarrow> \<exists>s'. foreach_global (decref n) cs s = Inr s'"
proof (induction cs arbitrary: s)
  case Nil
  then show ?case by simp
next
  case (Cons c cs)
  from Cons.prems ih[of c s] obtain s1 where 1: "decref n c s = Inr s1" by auto
  note r = decref_run[OF 1]
  have "\<forall>c\<in>set cs. 0 \<le> c \<and> c < int (num_refs s1)"
    using Cons.prems(1) dec_run_num_refs[OF r] by simp
  moreover have "pool_heap_ok s1" using dec_run_pool_heap_ok[OF r Cons.prems(2)] .
  moreover have "pool_count s1 < n" using dec_run_pool_count[OF r] Cons.prems(3) by simp
  ultimately obtain s' where "foreach_global (decref n) cs s1 = Inr s'"
    using Cons.IH by blast
  with 1 show ?case by simp
qed

lemma decref_total:
  "0 \<le> r \<Longrightarrow> r < int (num_refs s) \<Longrightarrow> pool_heap_ok s \<Longrightarrow> pool_count s < n
   \<Longrightarrow> \<exists>s'. decref n r s = Inr s'"
proof (induction n arbitrary: r s)
  case 0
  then show ?case by simp
next
  case (Suc n)
  have lt: "nat r < length (ref_table s)" using Suc.prems by (simp add: num_refs_def)
  show ?case
  proof (cases "ref_table s ! nat r")
    case None
    with Suc.prems show ?thesis by (simp add: decref_Suc del: decref.simps)
  next
    case (Some a)
    show ?thesis
    proof (cases "is_pool_address (Some a) s \<and> ref_count (mem s a) = 1")
      case False
      with Some Suc.prems show ?thesis by (auto simp: decref_Suc simp del: decref.simps)
    next
      case True
      let ?s0 = "clear_slot (nat r) (dec_count a s)"
      have la: "live_at s (nat r) a" using lt Some True by (simp add: live_at_def)
      with Suc.prems(3) obtain cs where cs: "children (mem s a) = Some cs"
        "\<forall>c\<in>set cs. 0 \<le> c \<and> c < int (num_refs s)" unfolding pool_heap_ok_def by blast
      have nr: "num_refs ?s0 = num_refs s" by (simp add: num_refs_def)
      have ch: "children (mem ?s0 b) = children (mem s b)" for b
        by (simp add: children_def)
      have ph: "pool_heap_ok ?s0"
        using Suc.prems(3) unfolding pool_heap_ok_def nr ch live_at_clear live_at_upd
        by blast
      have pc: "pool_count ?s0 < n"
        using pool_count_clear[OF lt, of a] Some True Suc.prems(4) by simp
      from foreach_decref_total[where n = n and cs = cs and s = ?s0, OF Suc.IH] cs(2) ph pc nr
      obtain s3 where "foreach_global (decref n) cs ?s0 = Inr s3" by auto
      with Some True Suc.prems cs(1) show ?thesis
        by (simp add: decref_Suc del: decref.simps)
    qed
  qed
qed

lemma live_at_slot_addrs: "live_at s i a \<Longrightarrow> a \<in> set (slot_addrs s)"
  unfolding live_at_def slot_addrs_def
  by (metis (mono_tags, lifting) image_eqI mem_Collect_eq nth_mem option.sel set_filter set_map)

lemma distinct_filter_nth:
  assumes "distinct (filter P xs)" "i < j" "j < length xs" "xs ! i = xs ! j" "P (xs ! i)"
  shows False
proof -
  have xs: "xs = take j xs @ xs ! j # drop (Suc j) xs"
    using assms(3) by (simp add: id_take_nth_drop)
  have "xs ! i \<in> set (take j xs)"
    using assms(2,3) by (metis in_set_conv_nth length_take min.absorb2 less_imp_le nth_take)
  with assms(5) have 1: "xs ! j \<in> set (filter P (take j xs))" using assms(4) by simp
  have "distinct (filter P (take j xs) @ filter P (xs ! j # drop (Suc j) xs))"
    using assms(1) by (subst (asm) xs) simp
  with 1 assms(4,5) show False by auto
qed

lemma distinct_slot_addrs_inj: "distinct (slot_addrs s) \<Longrightarrow> inj_slots s"
  unfolding inj_slots_def
proof (intro allI impI)
  fix i j a
  assume d: "distinct (slot_addrs s)" and i: "live_at s i a" and j: "live_at s j a"
  from d have df: "distinct (filter (\<lambda>p. is_pool_address p s) (ref_table s))"
    unfolding slot_addrs_def by (simp add: distinct_map)
  show "i = j"
  proof (rule ccontr)
    assume "i \<noteq> j"
    then consider "i < j" | "j < i" by linarith
    then show False
    proof cases
      case 1
      from distinct_filter_nth[OF df 1] i j show False by (simp add: live_at_def)
    next
      case 2
      from distinct_filter_nth[OF df 2] i j show False by (simp add: live_at_def)
    qed
  qed
qed

lemma table_ok_wf: "table_ok s \<Longrightarrow> wf s"
  unfolding table_ok_def wf_def sized_def
  using distinct_slot_addrs_inj[of s] live_at_slot_addrs[of s]
  by (auto simp: list_all_iff)

lemma table_ok_pool_heap_ok: "table_ok s \<Longrightarrow> pool_heap_ok s"
  unfolding table_ok_def pool_heap_ok_def
  using live_at_slot_addrs[of s]
  by (fastforce simp: list_all_iff split: option.splits)

text \<open>
  C7. In a state that satisfies \<open>table_ok\<close>, \<open>decref\<close> of a handle within the table
  returns, with no collection involved. Each value it releases (the addresses \<open>new\<close>
  handed to \<open>mm_free\<close>) takes exactly one value out of \<open>refs_used\<close> and exactly its
  \<open>value_size\<close> out of \<open>mem_used\<close>. When the count of the value at the handle was 1,
  that value is among the released ones and its slot is cleared; when it has no children
  it is the only one.
\<close>

theorem decref_release_accounting:
  assumes ok: "table_ok s" and r0: "0 \<le> ref" and r1: "ref < int (num_refs s)"
    and fuel: "num_refs s < n"
  shows "\<exists>s' new. decref n ref s = Inr s' \<and> released s' = new @ released s
           \<and> refs_used s' + length new = refs_used s
           \<and> mem_used s' + sum_list (map (\<lambda>a. value_size (mem s a)) new) = mem_used s
           \<and> (\<forall>a. ref_table s ! nat ref = Some a \<and> is_pool_address (Some a) s
                    \<and> ref_count (mem s a) = 1
                 \<longrightarrow> a \<in> set new \<and> ref_table s' ! nat ref = None)
           \<and> (\<forall>a. ref_table s ! nat ref = Some a \<and> is_pool_address (Some a) s
                    \<and> ref_count (mem s a) = 1 \<and> children (mem s a) = Some []
                 \<longrightarrow> new = [a])"
proof -
  have pc: "pool_count s < n" using pool_count_le[of s] fuel by simp
  from decref_total[OF r0 r1 table_ok_pool_heap_ok[OF ok] pc]
  obtain s' where d: "decref n ref s = Inr s'" by auto
  note run = decref_run[OF d]
  from dec_run_account[OF run table_ok_wf[OF ok]] obtain new where
    n: "released s' = new @ released s" "refs_used s' + length new = refs_used s"
    "mem_used s' + sum_list (map (\<lambda>a. value_size (mem s a)) new) = mem_used s" by auto
  from fuel obtain m where m: "n = Suc m" by (cases n) auto
  have lt: "nat ref < length (ref_table s)" using r0 r1 by (simp add: num_refs_def)
  have z: "a \<in> set new \<and> ref_table s' ! nat ref = None"
    if h: "ref_table s ! nat ref = Some a \<and> is_pool_address (Some a) s \<and> ref_count (mem s a) = 1"
    for a
  proof -
    from d h r0 r1 obtain cs s3 where
      f: "foreach_global (decref m) cs (clear_slot (nat ref) (dec_count a s)) = Inr s3"
      and s': "s' = mm_free a s3"
      unfolding m by (auto simp: decref_Suc simp del: decref.simps split: option.splits sum.splits)
    have r3: "dec_run (clear_slot (nat ref) (dec_count a s)) s3"
      by (rule foreach_global_run[OF _ f]) (erule decref_run)
    from dec_run_released[OF r3] obtain new' where "released s3 = new' @ released s" by auto
    with s' n(1) have "new = a # new'" by simp
    moreover have "ref_table s3 ! nat ref = None"
      using dec_run_dead[OF r3, of "nat ref"] lt by simp
    ultimately show ?thesis using s' by simp
  qed
  have l: "new = [a]"
    if h: "ref_table s ! nat ref = Some a \<and> is_pool_address (Some a) s \<and> ref_count (mem s a) = 1
           \<and> children (mem s a) = Some []" for a
  proof -
    from d h r0 r1 have "s' = mm_free a (clear_slot (nat ref) (dec_count a s))"
      unfolding m by (auto simp: decref_Suc simp del: decref.simps)
    with n(1) show ?thesis by simp
  qed
  from d n z l show ?thesis by blast
qed

theorem decref_release_accounting_witness:
  "table_ok heap4 \<and> (0::int) \<le> 1 \<and> 1 < int (num_refs heap4) \<and> num_refs heap4 < 5
   \<and> refs_used heap4 = 4 \<and> mem_used heap4 = 104
   \<and> (\<exists>s'. decref 5 1 heap4 = Inr s' \<and> released s' = [4120] \<and> refs_used s' = 3
            \<and> mem_used s' = 80 \<and> ref_table s' ! 1 = None)"
proof -
  have nr: "num_refs heap4 = 4" by (simp add: num_refs_def heap4_def)
  have sa: "slot_addrs heap4 = [4096, 4120, 4144, 4168]"
    by (simp add: slot_addrs_def heap4_def is_pool_address_def)
  have h1: "table_ok heap4"
    unfolding table_ok_def sa nr
    by (simp add: alloc_ok_def heap4_def children_def scalar24_def self_list_def)
  have h2: "(0::int) \<le> 1" by simp
  have h3: "1 < int (num_refs heap4)" and h4: "num_refs heap4 < 5" using nr by simp_all
  have e: "refs_used heap4 = 4" "mem_used heap4 = 104" "released heap4 = []"
    "ref_table heap4 ! nat 1 = Some 4120" "is_pool_address (Some 4120) heap4"
    "ref_count (mem heap4 4120) = 1" "children (mem heap4 4120) = Some []"
    "value_size (mem heap4 4120) = 24"
    by (simp_all add: refs_used_def mem_used_def heap4_def is_pool_address_def scalar24_def
        children_def)
  from decref_release_accounting [OF h1 h2 h3 h4] obtain s' new where
    r: "decref 5 1 heap4 = Inr s'" "released s' = new @ released heap4"
      "refs_used s' + length new = refs_used heap4"
      "mem_used s' + sum_list (map (\<lambda>a. value_size (mem heap4 a)) new) = mem_used heap4"
      "ref_table heap4 ! nat 1 = Some 4120 \<and> is_pool_address (Some 4120) heap4
         \<and> ref_count (mem heap4 4120) = 1 \<longrightarrow> 4120 \<in> set new \<and> ref_table s' ! nat 1 = None"
      "ref_table heap4 ! nat 1 = Some 4120 \<and> is_pool_address (Some 4120) heap4
         \<and> ref_count (mem heap4 4120) = 1 \<and> children (mem heap4 4120) = Some []
         \<longrightarrow> new = [4120]"
    by blast
  from r(6) e have new: "new = [4120]" by simp
  from r(1-5) e show ?thesis unfolding new using h1 h2 h3 h4 by auto
qed
section \<open>The order of a release\<close>

text \<open>
  C3. When \<open>decref\<close> takes the count of the value at a live handle from 1 to 0, it
  first stores the count and clears the slot, then calls \<open>decref\<close> on the children of
  the value in the state with the slot cleared, then hands the value to \<open>mm_free\<close>. The
  children are the child of a list, the keys and then the values of a dictionary, and
  the entries of a reference array in their order, those equal to \<open>NULL_REF\<close> or
  \<open>TOMBSTONE_REF\<close> left out; a value of another kind has none. The release of the value
  is the latest one and its slot is unused in the state returned. A child of a list that
  is another live handle, with a count other than 1, has its count taken down by one. In
  the state with the slot cleared a further \<open>decref\<close> of the same handle changes
  nothing, so a list whose child is the list itself is released once: the call from the
  traversal finds the slot unused.
\<close>

theorem decref_to_zero_order:
  assumes "0 \<le> ref" "ref < int (num_refs s)" "ref_table s ! nat ref = Some a"
    "is_pool_address (Some a) s" "ref_count (mem s a) = 1"
  shows "ref_count (mem (clear_slot (nat ref) (dec_count a s)) a) = 0
         \<and> ref_table (clear_slot (nat ref) (dec_count a s)) ! nat ref = None
         \<and> (type (mem s a) = VAL_LIST \<and> payload (mem s a) = List_data c \<longrightarrow>
              decref (Suc n) ref s =
                (case decref n c (clear_slot (nat ref) (dec_count a s)) of
                   Inl e \<Rightarrow> Inl e
                 | Inr s2 \<Rightarrow> Inr (mm_free a s2)))
         \<and> (type (mem s a) = VAL_DICT \<and> payload (mem s a) = Dict_data ks vs \<longrightarrow>
              decref (Suc n) ref s =
                (case decref n ks (clear_slot (nat ref) (dec_count a s)) of
                   Inl e \<Rightarrow> Inl e
                 | Inr t \<Rightarrow>
                     (case decref n vs t of
                        Inl e \<Rightarrow> Inl e
                      | Inr s2 \<Rightarrow> Inr (mm_free a s2))))
         \<and> (type (mem s a) = VAL_REF_ARRAY \<and> payload (mem s a) = Ref_array_data arr \<longrightarrow>
              decref (Suc n) ref s =
                (case foreach_global (decref n)
                        (filter (\<lambda>r. r \<noteq> NULL_REF \<and> r \<noteq> TOMBSTONE_REF) arr)
                        (clear_slot (nat ref) (dec_count a s)) of
                   Inl e \<Rightarrow> Inl e
                 | Inr s2 \<Rightarrow> Inr (mm_free a s2)))
         \<and> (type (mem s a) \<noteq> VAL_LIST \<and> type (mem s a) \<noteq> VAL_DICT
              \<and> type (mem s a) \<noteq> VAL_REF_ARRAY \<longrightarrow>
              decref (Suc n) ref s = Inr (mm_free a (clear_slot (nat ref) (dec_count a s))))
         \<and> (\<forall>s'. decref (Suc n) ref s = Inr s' \<longrightarrow>
               hd (released s') = a \<and> ref_table s' ! nat ref = None)
         \<and> (type (mem s a) = VAL_LIST \<and> payload (mem s a) = List_data c \<and> c \<noteq> ref
              \<and> 0 \<le> c \<and> c < int (num_refs s) \<and> ref_table s ! nat c = Some b \<and> b \<noteq> a
              \<and> is_pool_address (Some b) s \<and> ref_count (mem s b) \<noteq> 1 \<longrightarrow>
              decref (Suc (Suc m)) ref s =
                Inr (mm_free a (dec_count b (clear_slot (nat ref) (dec_count a s)))))
         \<and> decref (Suc m) ref (clear_slot (nat ref) (dec_count a s))
             = Inr (clear_slot (nat ref) (dec_count a s))
         \<and> (type (mem s a) = VAL_LIST \<and> payload (mem s a) = List_data ref \<longrightarrow>
              decref (Suc (Suc m)) ref s =
                Inr (mm_free a (clear_slot (nat ref) (dec_count a s))))"
proof -
  define s1 where "s1 = clear_slot (nat ref) (dec_count a s)"
  have lt: "nat ref < length (ref_table s)" using assms(1,2) by (simp add: num_refs_def)
  have c0: "ref_count (mem s1 a) = 0" using assms(5) by (simp add: s1_def clear_slot_def dec_count_def)
  have sl: "ref_table s1 ! nat ref = None" using lt by (simp add: s1_def clear_slot_def dec_count_def)
  have nr: "num_refs s1 = num_refs s" by (simp add: s1_def num_refs_def clear_slot_def dec_count_def)
  have ty: "type (mem s1 a) = type (mem s a)" "payload (mem s1 a) = payload (mem s a)"
    by (simp_all add: s1_def clear_slot_def dec_count_def)
  have 1: "decref (Suc n) ref s =
           (case traverse_decref n a s1 of Inl e \<Rightarrow> Inl e | Inr s2 \<Rightarrow> Inr (mm_free a s2))" for n
    using assms by (simp add: table_at_def deref_def s1_def Let_def clear_slot_def dec_count_def)
  have l: "decref (Suc n) ref s =
             (case decref n c s1 of Inl e \<Rightarrow> Inl e | Inr s2 \<Rightarrow> Inr (mm_free a s2))"
    if "type (mem s a) = VAL_LIST \<and> payload (mem s a) = List_data c" for n c
    unfolding 1 using that ty by simp
  have d: "decref (Suc n) ref s =
             (case decref n ks s1 of
                Inl e \<Rightarrow> Inl e
              | Inr t \<Rightarrow> (case decref n vs t of Inl e \<Rightarrow> Inl e | Inr s2 \<Rightarrow> Inr (mm_free a s2)))"
    if "type (mem s a) = VAL_DICT \<and> payload (mem s a) = Dict_data ks vs"
    unfolding 1 using that ty by (simp split: sum.splits)
  have r: "decref (Suc n) ref s =
             (case foreach_global (decref n)
                     (filter (\<lambda>r. r \<noteq> NULL_REF \<and> r \<noteq> TOMBSTONE_REF) arr) s1 of
                Inl e \<Rightarrow> Inl e
              | Inr s2 \<Rightarrow> Inr (mm_free a s2))"
    if "type (mem s a) = VAL_REF_ARRAY \<and> payload (mem s a) = Ref_array_data arr"
    unfolding 1 traverse_decref_children using that ty by (simp add: children_def)
  have o: "decref (Suc n) ref s = Inr (mm_free a s1)"
    if "type (mem s a) \<noteq> VAL_LIST \<and> type (mem s a) \<noteq> VAL_DICT
        \<and> type (mem s a) \<noteq> VAL_REF_ARRAY"
    unfolding 1 using that ty by simp
  have 2: "decref (Suc m) ref s1 = Inr s1" for m
    using assms(1,2) nr sl by (simp add: decref_Suc del: decref.simps)
  have 3: "hd (released s') = a \<and> ref_table s' ! nat ref = None"
    if h: "decref (Suc n) ref s = Inr s'" for s'
  proof -
    from h obtain s2 where t: "traverse_decref n a s1 = Inr s2" and e: "s' = mm_free a s2"
      unfolding 1 by (auto split: sum.splits)
    from dec_run_dead[OF traverse_decref_run[OF t] _ sl] lt
    have "ref_table s2 ! nat ref = None" by (simp add: s1_def clear_slot_def dec_count_def)
    with e show ?thesis by (simp add: mm_free_def)
  qed
  have 4: "decref (Suc (Suc m)) ref s = Inr (mm_free a s1)"
    if h: "type (mem s a) = VAL_LIST \<and> payload (mem s a) = List_data ref"
    using l[OF h, of "Suc m"] 2[of m] by simp
  have 5: "decref (Suc (Suc m)) ref s = Inr (mm_free a (dec_count b s1))"
    if h: "type (mem s a) = VAL_LIST \<and> payload (mem s a) = List_data c \<and> c \<noteq> ref
              \<and> 0 \<le> c \<and> c < int (num_refs s) \<and> ref_table s ! nat c = Some b \<and> b \<noteq> a
              \<and> is_pool_address (Some b) s \<and> ref_count (mem s b) \<noteq> 1"
  proof -
    from h assms(1) have ne: "nat c \<noteq> nat ref" by auto
    with h have sc: "ref_table s1 ! nat c = Some b"
      by (simp add: s1_def clear_slot_def dec_count_def)
    have p: "is_pool_address (Some b) s1"
      using h by (simp add: s1_def clear_slot_def dec_count_def is_pool_address_def)
    have cb: "ref_count (mem s1 b) \<noteq> 1"
      using h by (simp add: s1_def clear_slot_def dec_count_def)
    have "decref (Suc m) c s1 = Inr (dec_count b s1)"
      using h nr sc p cb by (simp add: decref_Suc del: decref.simps)
    with l[of c "Suc m"] h show ?thesis by simp
  qed
  show ?thesis
    using c0 sl l[of c n] d r o 2[of m] 3 4 5 unfolding s1_def by blast
qed

lemma fuel_3: "(3::nat) = Suc (Suc (Suc 0))"
  by simp

theorem decref_to_zero_order_witness:
  "(0::int) \<le> 3 \<and> 3 < int (num_refs tree4) \<and> ref_table tree4 ! nat 3 = Some 4192
   \<and> is_pool_address (Some 4192) tree4 \<and> ref_count (mem tree4 4192) = 1
   \<and> type (mem tree4 4192) = VAL_LIST \<and> payload (mem tree4 4192) = List_data 2
   \<and> (\<exists>s'. decref 3 3 tree4 = Inr s' \<and> ref_table s' = [Some 4096, None, None, None]
         \<and> released s' = [4192, 4144, 4120] \<and> ref_count (mem s' 4096) = 1
         \<and> ref_count (mem s' 4120) = 0)"
proof -
  have h1: "(0::int) \<le> 3" by simp
  have h2: "3 < int (num_refs tree4)" by (simp add: num_refs_def tree4_def)
  have h3: "ref_table tree4 ! nat 3 = Some 4192" by (simp add: tree4_def)
  have h4: "is_pool_address (Some 4192) tree4" by (simp add: is_pool_address_def tree4_def)
  have h5: "ref_count (mem tree4 4192) = 1" by (simp add: tree4_def list_of2_def)
  have h6: "type (mem tree4 4192) = VAL_LIST \<and> payload (mem tree4 4192) = List_data 2"
    by (simp add: tree4_def list_of2_def)
  from decref_to_zero_order [OF h1 h2 h3 h4 h5, of 2 "Suc (Suc 0)"] h6
  have e: "decref (Suc (Suc (Suc 0))) 3 tree4 =
          (case decref (Suc (Suc 0)) 2 (clear_slot (nat 3) (dec_count 4192 tree4)) of
             Inl e \<Rightarrow> Inl e
           | Inr s2 \<Rightarrow> Inr (mm_free 4192 s2))"
    by blast
  have "\<exists>s'. decref 3 3 tree4 = Inr s' \<and> ref_table s' = [Some 4096, None, None, None]
         \<and> released s' = [4192, 4144, 4120] \<and> ref_count (mem s' 4096) = 1
         \<and> ref_count (mem s' 4120) = 0"
    unfolding fuel_3 e
    by (simp add: clear_slot_def dec_count_def tree4_def table_at_def deref_def num_refs_def
        is_pool_address_def mm_free_def Let_def scalar24_def array_of01_def list_of2_def
        NULL_REF_def TOMBSTONE_REF_def)
  with h1 h2 h3 h4 h5 h6 show ?thesis by blast
qed

section \<open>The copy of the reachable values\<close>

lemma moved_simps [simp]:
  "mem (moved i old new bs s) = (mem s)(new := mem s old)"
  "blocks (moved i old new bs s) = bs"
  "ref_table (moved i old new bs s) = (ref_table s)[i := Some new]"
  "released (moved i old new bs s) = released s"
  "mm_base (moved i old new bs s) = mm_base s"
  "mm_size (moved i old new bs s) = mm_size s"
  "from_space (moved i old new bs s) = from_space s"
  "to_space (moved i old new bs s) = to_space s"
  "pool_size (moved i old new bs s) = pool_size s"
  "max_refs (moved i old new bs s) = max_refs s"
  "host_slots (moved i old new bs s) = host_slots s"
  by (simp_all add: moved_def)

lemma is_pool_address_moved [simp]:
  "is_pool_address p (moved i old new bs s) = is_pool_address p s"
  by (cases p) (simp_all add: is_pool_address_def)

lemma num_refs_moved [simp]: "num_refs (moved i old new bs s) = num_refs s"
  by (simp add: num_refs_def)

text \<open>The copy of one value, as \<open>copy_contents\<close> does it, is a \<open>moved\<close> state.\<close>

lemma copy_step_moved:
  assumes ok: "alloc_ok s" and np: "\<not> is_pool_address (Some old) s"
    and m: "mm_malloc (value_size (mem s old)) s = (Some new, s1)"
  shows "\<exists>bs. 0 < value_size (mem s old)
           \<and> first_fit (value_size (mem s old)) (blocks s) = Some (new, bs)
           \<and> s1\<lparr>mem := (mem s1)(new := mem s1 old)\<rparr>
                \<lparr>ref_table := (ref_table (s1\<lparr>mem := (mem s1)(new := mem s1 old)\<rparr>))
                                [i := Some new]\<rparr>
             = moved i old new bs s"
proof -
  let ?n = "value_size (mem s old)"
  from m have pos: "0 < ?n" by (auto simp: mm_malloc_def split: if_splits)
  with m obtain bs where ff: "first_fit ?n (blocks s) = Some (new, bs)"
    and s1: "s1 = s\<lparr>mem := (mem s)(new := (mem s new)\<lparr>type := VAL_FREE, value_size := ?n\<rparr>),
                    blocks := bs\<rparr>"
    by (auto simp: mm_malloc_def split: if_splits option.splits)
  from ok have "chain (mm_base s) (blocks s) (mm_base s + mm_size s)"
    "list_all (\<lambda>b. b_used b \<longrightarrow> 0 < b_size b) (blocks s)" by (simp_all add: alloc_ok_def)
  from first_fit_sound[OF ff pos this] have "is_pool_address (Some new) s"
    by (simp add: is_pool_address_def)
  with np have ne: "new \<noteq> old" by auto
  have "s1\<lparr>mem := (mem s1)(new := mem s1 old)\<rparr>
          \<lparr>ref_table := (ref_table (s1\<lparr>mem := (mem s1)(new := mem s1 old)\<rparr>))[i := Some new]\<rparr>
        = moved i old new bs s"
    using ne unfolding s1 moved_def by simp
  with pos ff show ?thesis by blast
qed

lemma copy_contents_array_filter:
  "copy_contents_array n arr t =
     foreach_global (copy_contents n) (filter (\<lambda>r. r \<noteq> NULL_REF \<and> r \<noteq> TOMBSTONE_REF) arr) t"
  by (induction arr arbitrary: t) (auto split: sum.splits simp del: copy_contents.simps)

lemma copy_children:
  "(if type v = VAL_LIST then
      (case payload v of List_data vals \<Rightarrow> copy_contents n vals t | _ \<Rightarrow> Inl Bad_payload)
    else if type v = VAL_DICT then
      (case payload v of
         Dict_data ks vals \<Rightarrow>
           (case copy_contents n ks t of Inl e \<Rightarrow> Inl e | Inr s4 \<Rightarrow> copy_contents n vals s4)
       | _ \<Rightarrow> Inl Bad_payload)
    else if type v = VAL_REF_ARRAY then
      (case payload v of Ref_array_data arr \<Rightarrow> copy_contents_array n arr t
       | _ \<Rightarrow> Inl Bad_payload)
    else Inr t)
   = (case children v of None \<Rightarrow> Inl Bad_payload
      | Some cs \<Rightarrow> foreach_global (copy_contents n) cs t)"
  by (auto simp: children_def copy_contents_array_filter split: payload.splits sum.splits
      simp del: copy_contents.simps)

lemma copy_contents_Suc:
  assumes ok: "alloc_ok s"
  shows "copy_contents (Suc n) r s =
     (if \<not> (0 \<le> r \<and> r < int (num_refs s)) then Inl Out_of_bounds
      else (case ref_table s ! nat r of
              None \<Rightarrow> Inl Null_deref
            | Some old \<Rightarrow>
                if is_pool_address (Some old) s then Inr s
                else if value_size (mem s old) = 0 then Inl Null_deref
                else (case first_fit (value_size (mem s old)) (blocks s) of
                        None \<Rightarrow> Inl Null_deref
                      | Some (new, bs) \<Rightarrow>
                          (case children (mem s old) of
                             None \<Rightarrow> Inl Bad_payload
                           | Some cs \<Rightarrow>
                               foreach_global (copy_contents n) cs
                                 (moved (nat r) old new bs s)))))"
proof (cases "0 \<le> r \<and> r < int (num_refs s)")
  case False
  then have ta: "table_at r s = Inl Out_of_bounds" by (simp add: table_at_def)
  have "copy_contents (Suc n) r s = Inl Out_of_bounds"
    by (simp only: copy_contents.simps(2) ta sum.case)
  with False show ?thesis by simp
next
  case rng: True
  show ?thesis
  proof (cases "ref_table s ! nat r")
    case None
    with rng have ta: "table_at r s = Inr None" by (simp add: table_at_def)
    have np: "is_pool_address None s = False" by (simp add: is_pool_address_def)
    have "copy_contents (Suc n) r s = Inl Null_deref"
      by (simp only: copy_contents.simps(2) ta sum.case np option.case simp_thms if_True)
    with rng None show ?thesis by simp
  next
    case (Some old)
    with rng have ta: "table_at r s = Inr (Some old)" by (simp add: table_at_def)
    show ?thesis
    proof (cases "is_pool_address (Some old) s")
      case True
      have "copy_contents (Suc n) r s = Inr s"
        by (simp only: copy_contents.simps(2) ta sum.case True option.case simp_thms if_False)
      with rng Some True show ?thesis by simp
    next
      case np: False
      then have np': "is_pool_address (Some old) s = False" by simp
      obtain p s1 where m: "mm_malloc (value_size (mem s old)) s = (p, s1)"
        by (cases "mm_malloc (value_size (mem s old)) s")
      show ?thesis
      proof (cases p)
        case None
        with m have z: "value_size (mem s old) = 0
            \<or> first_fit (value_size (mem s old)) (blocks s) = None"
          by (auto simp: mm_malloc_def split: if_splits option.splits)
        have "copy_contents (Suc n) r s = Inl Null_deref"
          by (simp only: copy_contents.simps(2) ta sum.case np' option.case simp_thms if_True
              m None prod.case)
        with rng Some np z show ?thesis by auto
      next
        case new: (Some new)
        from copy_step_moved[OF ok np m[unfolded new], of "nat r"] obtain bs where
          b: "0 < value_size (mem s old)"
          "first_fit (value_size (mem s old)) (blocks s) = Some (new, bs)"
          "s1\<lparr>mem := (mem s1)(new := mem s1 old)\<rparr>
              \<lparr>ref_table := (ref_table (s1\<lparr>mem := (mem s1)(new := mem s1 old)\<rparr>))
                              [nat r := Some new]\<rparr> = moved (nat r) old new bs s"
          by blast
        have mv: "mem (moved (nat r) old new bs s) new = mem s old" by simp
        have "copy_contents (Suc n) r s =
           (case children (mem s old) of
              None \<Rightarrow> Inl Bad_payload
            | Some cs \<Rightarrow> foreach_global (copy_contents n) cs (moved (nat r) old new bs s))"
          by (simp only: copy_contents.simps(2) ta sum.case np' option.case simp_thms if_True
              m new prod.case Let_def b(3) mv copy_children)
        with rng Some np b(1,2) show ?thesis by simp
      qed
    qed
  qed
qed

lemma live_at_moved:
  "live_at (moved i old new bs s) j b =
     (if j = i then i < length (ref_table s) \<and> b = new \<and> is_pool_address (Some new) s
      else live_at s j b)"
  by (auto simp: live_at_def)

text \<open>What one copy finds: a block of the pool that no slot holds.\<close>

lemma step_fresh:
  assumes w: "wf s" and ff: "first_fit n (blocks s) = Some (new, bs)" and pos: "0 < n"
  shows "is_pool_address (Some new) s"
    and "alloc_ok (moved i old new bs s)"
    and "set (filter b_used bs) = insert (Block new n True) (set (filter b_used (blocks s)))"
    and "used_bytes bs = used_bytes (blocks s) + n"
    and "\<And>j b. j < length (ref_table s) \<Longrightarrow> ref_table s ! j = Some b
            \<Longrightarrow> \<not> is_pool_address (Some b) s \<or> live_at s j b \<Longrightarrow> b \<noteq> new"
proof -
  from w have ch: "chain (mm_base s) (blocks s) (mm_base s + mm_size s)"
    and up: "list_all (\<lambda>b. b_used b \<longrightarrow> 0 < b_size b) (blocks s)"
    by (simp_all add: wf_def alloc_ok_def)
  note fs = first_fit_sound[OF ff pos ch up]
  from fs show p: "is_pool_address (Some new) s" by (simp add: is_pool_address_def)
  from fs show "alloc_ok (moved i old new bs s)" by (simp add: alloc_ok_def)
  from fs show "set (filter b_used bs) = insert (Block new n True) (set (filter b_used (blocks s)))"
    by simp
  from fs show "used_bytes bs = used_bytes (blocks s) + n" by simp
  fix j b
  assume j: "j < length (ref_table s)" "ref_table s ! j = Some b"
    and d: "\<not> is_pool_address (Some b) s \<or> live_at s j b"
  show "b \<noteq> new"
  proof
    assume e: "b = new"
    with p d have "live_at s j new" by auto
    with w have "Block new (value_size (mem s new)) True \<in> set (blocks s)"
      by (auto simp: wf_def sized_def)
    then have "new \<in> b_addr ` set (filter b_used (blocks s))" by force
    with fs show False by simp
  qed
qed

lemma slot_not_new:
  assumes w: "wf s" and ff: "first_fit n (blocks s) = Some (new, bs)" and pos: "0 < n"
    and j: "j < length (ref_table s)" "ref_table s ! j = Some b"
  shows "b \<noteq> new"
proof (cases "is_pool_address (Some b) s")
  case True
  with j have "live_at s j b" by (simp add: live_at_def)
  with step_fresh(5)[OF w ff pos j] show ?thesis by simp
next
  case False
  with step_fresh(5)[OF w ff pos j] show ?thesis by simp
qed

lemma wf_moved:
  assumes w: "wf s" and i: "i < length (ref_table s)" "ref_table s ! i = Some old"
    and ff: "first_fit (value_size (mem s old)) (blocks s) = Some (new, bs)"
    and pos: "0 < value_size (mem s old)"
  shows "wf (moved i old new bs s)"
proof -
  let ?s' = "moved i old new bs s"
  note sf = step_fresh[OF w ff pos]
  have fresh: "b \<noteq> new" if "live_at s j b" for j b
    using sf(5)[of j b] that by (simp add: live_at_def)
  have inj: "inj_slots ?s'"
    unfolding inj_slots_def
  proof (intro allI impI)
    fix j k b assume a: "live_at ?s' j b" "live_at ?s' k b"
    show "j = k"
    proof (cases "j = i"; cases "k = i")
      assume "j \<noteq> i" "k \<noteq> i"
      with a w show ?thesis by (auto simp: live_at_moved wf_def inj_slots_def)
    next
      assume "j = i" "k \<noteq> i"
      with a fresh show ?thesis by (auto simp: live_at_moved)
    next
      assume "j \<noteq> i" "k = i"
      with a fresh show ?thesis by (auto simp: live_at_moved)
    qed simp
  qed
  have sz: "sized ?s'"
    unfolding sized_def
  proof (intro allI impI)
    fix j b assume a: "live_at ?s' j b"
    show "Block b (value_size (mem ?s' b)) True \<in> set (blocks ?s')"
    proof (cases "j = i")
      case True
      with a have "b = new" by (simp add: live_at_moved)
      with sf(3) show ?thesis by auto
    next
      case False
      with a have l: "live_at s j b" by (simp add: live_at_moved)
      with fresh have ne: "b \<noteq> new" by simp
      from l w have "Block b (value_size (mem s b)) True \<in> set (filter b_used (blocks s))"
        by (auto simp: wf_def sized_def)
      with sf(3) have "Block b (value_size (mem s b)) True \<in> set (filter b_used bs)" by simp
      with ne show ?thesis by simp
    qed
  qed
  from sf(2) inj sz show ?thesis by (simp add: wf_def)
qed

lemma copy_run_wf: "copy_run U s s' \<Longrightarrow> wf s \<Longrightarrow> wf s'"
  by (induction rule: copy_run.induct) (auto intro: wf_moved)

lemma copy_run_frame:
  "copy_run U s s' \<Longrightarrow>
     length (ref_table s') = length (ref_table s) \<and> mm_base s' = mm_base s
     \<and> mm_size s' = mm_size s \<and> from_space s' = from_space s \<and> to_space s' = to_space s
     \<and> pool_size s' = pool_size s \<and> max_refs s' = max_refs s \<and> host_slots s' = host_slots s
     \<and> released s' = released s"
  by (induction rule: copy_run.induct) simp_all

lemma copy_run_pool: "copy_run U s s' \<Longrightarrow> is_pool_address p s' = is_pool_address p s"
  using copy_run_frame[of U s s'] by (cases p) (simp_all add: is_pool_address_def)

lemma copy_run_num_refs: "copy_run U s s' \<Longrightarrow> num_refs s' = num_refs s"
  using copy_run_frame[of U s s'] by (simp add: num_refs_def)

lemma copy_run_slots:
  "copy_run U s s' \<Longrightarrow> wf s \<Longrightarrow> i < length (ref_table s) \<Longrightarrow>
     ref_table s' ! i = ref_table s ! i
     \<or> (int i \<in> U \<and> stale s (ref_table s ! i) \<and> is_pool_address (ref_table s' ! i) s)"
proof (induction arbitrary: i rule: copy_run.induct)
  case (skip s)
  then show ?case by simp
next
  case (step j s old new bs)
  from step_fresh(1)[OF step.prems(1) step.hyps(6) step.hyps(5)]
  have p: "is_pool_address (Some new) s" .
  show ?case
  proof (cases "i = j")
    case True
    with step.hyps p show ?thesis by (simp add: stale_def)
  next
    case False
    then show ?thesis by simp
  qed
next
  case (seq s s1 s2)
  note w1 = copy_run_wf[OF seq.hyps(1) seq.prems(1)]
  from seq.prems copy_run_frame[OF seq.hyps(1)] have i1: "i < length (ref_table s1)" by simp
  note a = seq.IH(1)[OF seq.prems]
  note b = seq.IH(2)[OF w1 i1]
  note p = copy_run_pool[OF seq.hyps(1)]
  from a show ?case
  proof
    assume e: "ref_table s1 ! i = ref_table s ! i"
    with b show ?thesis by (auto simp: stale_def p)
  next
    assume c: "int i \<in> U \<and> stale s (ref_table s ! i) \<and> is_pool_address (ref_table s1 ! i) s"
    with b have "ref_table s2 ! i = ref_table s1 ! i" by (auto simp: stale_def p)
    with c show ?thesis by simp
  qed
qed

lemma copy_run_mem_outside:
  "copy_run U s s' \<Longrightarrow> wf s \<Longrightarrow> \<not> is_pool_address (Some a) s \<Longrightarrow> mem s' a = mem s a"
proof (induction rule: copy_run.induct)
  case (skip s)
  then show ?case by simp
next
  case (step j s old new bs)
  from step_fresh(1)[OF step.prems(1) step.hyps(6) step.hyps(5)] step.prems(2)
  have "a \<noteq> new" by auto
  then show ?case by simp
next
  case (seq s s1 s2)
  with copy_run_wf[OF seq.hyps(1)] copy_run_pool[OF seq.hyps(1)] show ?case by simp
qed

text \<open>The value a slot designates stays the same value, wherever it is stored.\<close>

lemma copy_run_val:
  "copy_run U s s' \<Longrightarrow> wf s \<Longrightarrow> i < length (ref_table s) \<Longrightarrow> ref_table s ! i = Some a
   \<Longrightarrow> \<exists>a'. ref_table s' ! i = Some a' \<and> mem s' a' = mem s a"
proof (induction arbitrary: i a rule: copy_run.induct)
  case (skip s)
  then show ?case by simp
next
  case (step j s old new bs)
  show ?case
  proof (cases "i = j")
    case True
    with step.hyps step.prems show ?thesis by simp
  next
    case False
    from slot_not_new[OF step.prems(1) step.hyps(6) step.hyps(5) step.prems(2,3)]
    have "a \<noteq> new" .
    with False step.prems show ?thesis by simp
  qed
next
  case (seq s s1 s2)
  from seq.IH(1)[OF seq.prems] obtain a1 where
    a1: "ref_table s1 ! i = Some a1" "mem s1 a1 = mem s a" by auto
  from seq.prems copy_run_frame[OF seq.hyps(1)] have i1: "i < length (ref_table s1)" by simp
  from seq.IH(2)[OF copy_run_wf[OF seq.hyps(1) seq.prems(1)] i1 a1(1)] a1(2)
  show ?case by auto
qed

lemma copy_run_none:
  "copy_run U s s' \<Longrightarrow> wf s \<Longrightarrow> i < length (ref_table s) \<Longrightarrow> ref_table s ! i = None
   \<Longrightarrow> ref_table s' ! i = None"
  using copy_run_slots[of U s s' i] by (auto simp: stale_def)

lemma filter_update_sum:
  "i < length xs \<Longrightarrow> P (xs ! i) \<Longrightarrow> \<not> P y
   \<Longrightarrow> sum_list (map f (filter P (xs[i := y]))) + f (xs ! i) = sum_list (map f (filter P xs))"
  for f :: "'a \<Rightarrow> nat"
proof (induction xs arbitrary: i)
  case Nil
  then show ?case by simp
next
  case (Cons x xs)
  show ?case
  proof (cases i)
    case 0
    with Cons.prems show ?thesis by simp
  next
    case (Suc k)
    with Cons.prems have "k < length xs" "P (xs ! k)" by simp_all
    from Cons.IH[OF this Cons.prems(3)] Suc show ?thesis by simp
  qed
qed

lemma stale_moved [simp]: "stale (moved i old new bs s) = stale s"
  by (rule ext) (simp add: stale_def)

lemma first_fit_skip_used:
  "list_all b_used us \<Longrightarrow>
     first_fit n (us @ fs) = (case first_fit n fs of None \<Rightarrow> None
                              | Some (a, r) \<Rightarrow> Some (a, us @ r))"
  by (induction us) (auto split: option.splits)

lemma first_fit_keeps_compact:
  assumes "compact bs" "first_fit n bs = Some (x, bs')"
  shows "compact bs'"
proof -
  from assms(1) obtain us fs where bs: "bs = us @ fs" and us: "list_all b_used us"
    and fs: "fs = [] \<or> (\<exists>b. fs = [b] \<and> \<not> b_used b)" by (auto simp: compact_def)
  from assms(2) obtain r where r: "first_fit n fs = Some (x, r)" and bs': "bs' = us @ r"
    unfolding bs first_fit_skip_used[OF us] by (auto split: option.splits)
  from r fs obtain b where b: "fs = [b]" "\<not> b_used b" "n \<le> b_size b" 
    by (auto split: if_splits)
  show ?thesis
  proof (cases "n < b_size b")
    case True
    with r b have "r = [Block (b_addr b) n True] @ [Block (b_addr b + n) (b_size b - n) False]"
      by auto
    then have "bs' = (us @ [Block (b_addr b) n True]) @ [Block (b_addr b + n) (b_size b - n) False]"
      using bs' by simp
    then show ?thesis using us unfolding compact_def
      by (intro exI[of _ "us @ [Block (b_addr b) n True]"]
          exI[of _ "[Block (b_addr b + n) (b_size b - n) False]"]) simp
  next
    case False
    with r b have "r = [Block (b_addr b) n True]" by auto
    then have "bs' = (us @ [Block (b_addr b) n True]) @ []" using bs' by simp
    then show ?thesis using us unfolding compact_def
      by (intro exI[of _ "us @ [Block (b_addr b) n True]"] exI[of _ "[]"]) simp
  qed
qed

lemma stale_bytes_moved:
  assumes w: "wf s" and i: "i < length (ref_table s)" "ref_table s ! i = Some old"
    and np: "\<not> is_pool_address (Some old) s"
    and ff: "first_fit (value_size (mem s old)) (blocks s) = Some (new, bs)"
    and pos: "0 < value_size (mem s old)"
  shows "stale_bytes (moved i old new bs s) + value_size (mem s old) = stale_bytes s"
    and "stale_count (moved i old new bs s) + 1 = stale_count s"
proof -
  note p = step_fresh(1)[OF w ff pos]
  have st: "stale s (ref_table s ! i)" using i np by (simp add: stale_def)
  have ns: "\<not> stale s (Some new)" using p by (simp add: stale_def)
  have eq: "map (\<lambda>q. value_size (mem (moved i old new bs s) (the q)))
              (filter (stale s) ((ref_table s)[i := Some new]))
            = map (\<lambda>q. value_size (mem s (the q)))
              (filter (stale s) ((ref_table s)[i := Some new]))"
  proof (rule map_cong[OF refl])
    fix q assume "q \<in> set (filter (stale s) ((ref_table s)[i := Some new]))"
    then have "stale s q" by simp
    with p have "the q \<noteq> new" by (cases q) (auto simp: stale_def)
    then show "value_size (mem (moved i old new bs s) (the q)) = value_size (mem s (the q))"
      by simp
  qed
  have "stale_bytes (moved i old new bs s)
        = sum_list (map (\<lambda>q. value_size (mem (moved i old new bs s) (the q)))
                    (filter (stale s) ((ref_table s)[i := Some new])))"
    by (simp only: stale_bytes_def stale_moved moved_simps)
  also have "\<dots> = sum_list (map (\<lambda>q. value_size (mem s (the q)))
                    (filter (stale s) ((ref_table s)[i := Some new])))"
    by (simp only: eq)
  finally have e: "stale_bytes (moved i old new bs s)
        = sum_list (map (\<lambda>q. value_size (mem s (the q)))
                    (filter (stale s) ((ref_table s)[i := Some new])))" .
  from filter_update_sum[OF i(1) st ns, of "\<lambda>q. value_size (mem s (the q))"] i(2)
  show "stale_bytes (moved i old new bs s) + value_size (mem s old) = stale_bytes s"
    unfolding e by (simp add: stale_bytes_def)
  from filter_update_count[OF i(1), of "stale s" "Some new"] st ns
  show "stale_count (moved i old new bs s) + 1 = stale_count s"
    unfolding stale_count_def by simp
qed

lemma closed_moved:
  assumes w: "wf s" and i: "i < length (ref_table s)" "ref_table s ! i = Some old"
    and ff: "first_fit (value_size (mem s old)) (blocks s) = Some (new, bs)"
    and pos: "0 < value_size (mem s old)" and c: "closed U s"
  shows "closed U (moved i old new bs s)"
  unfolding closed_def
proof
  fix h assume h: "h \<in> U"
  with c obtain a cs where a: "0 \<le> h" "h < int (num_refs s)" "ref_table s ! nat h = Some a"
    "0 < value_size (mem s a)" "children (mem s a) = Some cs" "set cs \<subseteq> U"
    unfolding closed_def by blast
  let ?s' = "moved i old new bs s"
  have lt: "nat h < length (ref_table s)" using a(1,2) by (simp add: num_refs_def)
  have "\<exists>a'. ref_table ?s' ! nat h = Some a' \<and> mem ?s' a' = mem s a"
  proof (cases "nat h = i")
    case True
    with a(3) i have "a = old" by simp
    with True i show ?thesis by simp
  next
    case False
    from slot_not_new[OF w ff pos lt a(3)] have "a \<noteq> new" .
    with False a(3) show ?thesis by simp
  qed
  with a show "0 \<le> h \<and> h < int (num_refs ?s')
        \<and> (\<exists>a cs. ref_table ?s' ! nat h = Some a \<and> 0 < value_size (mem ?s' a)
               \<and> children (mem ?s' a) = Some cs \<and> set cs \<subseteq> U)"
    by auto
qed

lemma copy_run_inv:
  "copy_run U s s' \<Longrightarrow> copy_inv U s \<Longrightarrow> copy_inv U s' \<and> stale_count s' \<le> stale_count s"
proof (induction rule: copy_run.induct)
  case (skip s)
  then show ?case by simp
next
  case (step i s old new bs)
  from step.prems have w: "wf s" and cp: "compact (blocks s)"
    and sp: "mem_used s + stale_bytes s \<le> mm_size s" and cl: "closed U s"
    by (simp_all add: copy_inv_def)
  note sb = stale_bytes_moved[OF w step.hyps(2,3,4,6,5)]
  have mu: "mem_used (moved i old new bs s) = mem_used s + value_size (mem s old)"
    using step_fresh(4)[OF w step.hyps(6,5)] by (simp add: mem_used_used_bytes)
  have "copy_inv U (moved i old new bs s)"
    unfolding copy_inv_def
    using wf_moved[OF w step.hyps(2,3,6,5)] first_fit_keeps_compact[OF cp step.hyps(6)]
      closed_moved[OF w step.hyps(2,3,6,5) cl] sb(1) mu sp
    by simp
  with sb(2) show ?case by simp
next
  case (seq s s1 s2)
  then show ?case by auto
qed

lemma member_le_sum_list:
  "x \<in> set xs \<Longrightarrow> f x \<le> sum_list (map f xs)" for f :: "'a \<Rightarrow> nat"
  by (induction xs) auto

lemma foreach_copy_total:
  assumes ih: "\<And>r s. copy_inv U s \<Longrightarrow> r \<in> U \<Longrightarrow> stale_count s < n
                 \<Longrightarrow> \<exists>s'. copy_contents n r (s :: 'w::len state) = Inr s' \<and> copy_run U s s'"
  shows "set cs \<subseteq> U \<Longrightarrow> copy_inv U (s :: 'w state) \<Longrightarrow> stale_count s < n
         \<Longrightarrow> \<exists>s'. foreach_global (copy_contents n) cs s = Inr s' \<and> copy_run U s s'"
proof (induction cs arbitrary: s)
  case Nil
  then show ?case by (simp add: copy_run.skip)
next
  case (Cons c cs)
  from Cons.prems ih[of s c] obtain s1 where
    1: "copy_contents n c s = Inr s1" "copy_run U s s1" by auto
  from copy_run_inv[OF 1(2) Cons.prems(2)] Cons.prems(3)
  have "copy_inv U s1" "stale_count s1 < n" by simp_all
  with Cons.IH[of s1] Cons.prems(1) obtain s' where
    2: "foreach_global (copy_contents n) cs s1 = Inr s'" "copy_run U s1 s'" by auto
  from 1 2 show ?case by (auto intro: copy_run.seq)
qed

lemma copy_contents_total:
  "copy_inv U s \<Longrightarrow> r \<in> U \<Longrightarrow> stale_count s < n
   \<Longrightarrow> \<exists>s'. copy_contents n r s = Inr s' \<and> copy_run U s s'"
proof (induction n arbitrary: r s)
  case 0
  then show ?case by simp
next
  case (Suc n)
  from Suc.prems(1) have w: "wf s" and cp: "compact (blocks s)"
    and sp: "mem_used s + stale_bytes s \<le> mm_size s" and cl: "closed U s"
    by (simp_all add: copy_inv_def)
  from w have ok: "alloc_ok s" by (simp add: wf_def)
  from cl Suc.prems(2) obtain a cs where a: "0 \<le> r" "r < int (num_refs s)"
    "ref_table s ! nat r = Some a" "0 < value_size (mem s a)"
    "children (mem s a) = Some cs" "set cs \<subseteq> U"
    unfolding closed_def by blast
  have lt: "nat r < length (ref_table s)" using a(1,2) by (simp add: num_refs_def)
  show ?case
  proof (cases "is_pool_address (Some a) s")
    case True
    with a show ?thesis
      by (simp add: copy_contents_Suc[OF ok] copy_run.skip del: copy_contents.simps)
  next
    case False
    let ?n = "value_size (mem s a)"
    have "Some a \<in> set (filter (stale s) (ref_table s))"
      using lt a(3) False by (auto simp: stale_def in_set_conv_nth)
    from member_le_sum_list[OF this, of "\<lambda>p. value_size (mem s (the p))"]
    have "?n \<le> stale_bytes s" by (simp add: stale_bytes_def)
    with sp have room: "mm_base s + used_bytes (blocks s) + ?n \<le> mm_base s + mm_size s"
      by (simp add: mem_used_used_bytes)
    from ok have ch: "chain (mm_base s) (blocks s) (mm_base s + mm_size s)"
      by (simp add: alloc_ok_def)
    from first_fit_compact[OF cp ch a(4) room] obtain new bs where
      ff: "first_fit ?n (blocks s) = Some (new, bs)" by blast
    let ?t = "moved (nat r) a new bs s"
    have "int (nat r) \<in> U" using Suc.prems(2) a(1) by simp
    from copy_run.step[OF this lt a(3) False a(4) ff] have st: "copy_run U s ?t" .
    from copy_run_inv[OF st Suc.prems(1)] have inv: "copy_inv U ?t" by simp
    from stale_bytes_moved(2)[OF w lt a(3) False ff a(4)] Suc.prems(3)
    have fuel: "stale_count ?t < n" by simp
    from foreach_copy_total[where n = n and U = U, OF Suc.IH a(6) inv fuel]
    obtain s' where s': "foreach_global (copy_contents n) cs ?t = Inr s'" "copy_run U ?t s'"
      by blast
    from a False ff s'(1) have "copy_contents (Suc n) r s = Inr s'"
      by (simp add: copy_contents_Suc[OF ok] del: copy_contents.simps)
    with copy_run.seq[OF st s'(2)] show ?thesis by simp
  qed
qed

lemma copy_run_covered: "copy_run U s s' \<Longrightarrow> wf s \<Longrightarrow> covered X s \<Longrightarrow> covered X s'"
proof (induction rule: copy_run.induct)
  case (skip s)
  then show ?case by simp
next
  case (step i s old new bs)
  note sf = step_fresh[OF step.prems(1) step.hyps(6,5)]
  show ?case
    unfolding covered_def
  proof (intro ballI impI)
    fix b assume b: "b \<in> set (blocks (moved i old new bs s))" "b_used b"
    then have "b \<in> set (filter b_used bs)" by simp
    with sf(3) have "b = Block new (value_size (mem s old)) True \<or> b \<in> set (filter b_used (blocks s))"
      by auto
    then show "b_addr b \<in> X \<or> (\<exists>j. live_at (moved i old new bs s) j (b_addr b))"
    proof
      assume "b = Block new (value_size (mem s old)) True"
      then have "live_at (moved i old new bs s) i (b_addr b)"
        using step.hyps(2) sf(1) by (simp add: live_at_moved)
      then show ?thesis by blast
    next
      assume "b \<in> set (filter b_used (blocks s))"
      with step.prems(2) have "b_addr b \<in> X \<or> (\<exists>j. live_at s j (b_addr b))"
        by (auto simp: covered_def)
      then show ?thesis
      proof
        assume "b_addr b \<in> X" then show ?thesis by simp
      next
        assume "\<exists>j. live_at s j (b_addr b)"
        then obtain j where j: "live_at s j (b_addr b)" ..
        with step.hyps(3,4) have "j \<noteq> i" by (auto simp: live_at_def)
        with j have "live_at (moved i old new bs s) j (b_addr b)" by (simp add: live_at_moved)
        then show ?thesis by blast
      qed
    qed
  qed
next
  case (seq s s1 s2)
  with copy_run_wf[OF seq.hyps(1)] show ?case by simp
qed

section \<open>The sweep and the whole collection\<close>

lemma sweep_run_frame:
  "sweep_run s s' \<Longrightarrow>
     length (ref_table s') = length (ref_table s) \<and> mm_base s' = mm_base s
     \<and> mm_size s' = mm_size s \<and> from_space s' = from_space s \<and> to_space s' = to_space s
     \<and> pool_size s' = pool_size s \<and> max_refs s' = max_refs s \<and> host_slots s' = host_slots s"
proof (induction rule: sweep_run.induct)
  case (skip s)
  then show ?case by simp
next
  case (dec s s1 s2)
  with dec_run_frame[OF dec.hyps(1)] show ?case by simp
next
  case (drop i s s2)
  then show ?case by (simp add: clear_slot_def)
qed

lemma sweep_run_pool: "sweep_run s s' \<Longrightarrow> is_pool_address p s' = is_pool_address p s"
  using sweep_run_frame[of s s'] by (cases p) (simp_all add: is_pool_address_def)

lemma sweep_run_num_refs: "sweep_run s s' \<Longrightarrow> num_refs s' = num_refs s"
  using sweep_run_frame[of s s'] by (simp add: num_refs_def)

lemma sweep_run_slots:
  "sweep_run s s' \<Longrightarrow> i < length (ref_table s) \<Longrightarrow>
     ref_table s' ! i = ref_table s ! i \<or> ref_table s' ! i = None"
proof (induction arbitrary: i rule: sweep_run.induct)
  case (skip s)
  then show ?case by simp
next
  case (dec s s1 s2)
  from dec.prems dec_run_frame[OF dec.hyps(1)] have "i < length (ref_table s1)" by simp
  from dec.IH[OF this] dec_run_slots[OF dec.hyps(1) dec.prems] show ?case by auto
next
  case (drop j s s2)
  from drop.prems have "i < length (ref_table (clear_slot j s))" by simp
  from drop.IH[OF this] show ?case by (cases "i = j") (use drop.prems in auto)
qed

lemma sweep_run_mem:
  "sweep_run s s' \<Longrightarrow>
     type (mem s' a) = type (mem s a) \<and> value_size (mem s' a) = value_size (mem s a)
     \<and> payload (mem s' a) = payload (mem s a)"
proof (induction rule: sweep_run.induct)
  case (skip s)
  then show ?case by simp
next
  case (dec s s1 s2)
  with dec_run_mem[OF dec.hyps(1), of a] show ?case by simp
next
  case (drop i s s2)
  then show ?case by simp
qed

lemma wf_clear_slot: "wf s \<Longrightarrow> wf (clear_slot i s)"
  by (auto simp: wf_def inj_slots_def sized_def live_at_clear)

lemma sweep_run_wf: "sweep_run s s' \<Longrightarrow> wf s \<Longrightarrow> wf s'"
  by (induction rule: sweep_run.induct) (auto intro: dec_run_wf wf_clear_slot)

text \<open>Every release of a sweep is the release of an address of the active region.\<close>

lemma sweep_run_released:
  "sweep_run s s' \<Longrightarrow>
     \<exists>new. released s' = new @ released s \<and> (\<forall>a\<in>set new. is_pool_address (Some a) s)"
proof (induction rule: sweep_run.induct)
  case (skip s)
  then show ?case by simp
next
  case (dec s s1 s2)
  from dec_run_released[OF dec.hyps(1)] obtain n1 where
    n1: "released s1 = n1 @ released s" "\<forall>a\<in>set n1. \<exists>i. live_at s i a" by blast
  from dec.IH obtain n2 where
    n2: "released s2 = n2 @ released s1" "\<forall>a\<in>set n2. is_pool_address (Some a) s1" by blast
  from n1 n2 dec_run_pool[OF dec.hyps(1)] show ?case
    by (intro exI[of _ "n2 @ n1"]) (auto simp: live_at_def)
next
  case (drop i s s2)
  then show ?case by simp
qed

lemma used_bytes_foldr_free_in: "used_bytes (foldr free_in new bs) \<le> used_bytes bs"
proof (induction new)
  case Nil
  then show ?case by simp
next
  case (Cons a new)
  from used_bytes_free_in_le[of a "foldr free_in new bs"] Cons show ?case by simp
qed

lemma dec_run_mem_used: "dec_run s s' \<Longrightarrow> mem_used s' \<le> mem_used s"
  using dec_run_released[of s s'] used_bytes_foldr_free_in
  by (auto simp: mem_used_used_bytes)

lemma sweep_run_mem_used: "sweep_run s s' \<Longrightarrow> mem_used s' \<le> mem_used s"
proof (induction rule: sweep_run.induct)
  case (skip s)
  then show ?case by simp
next
  case (dec s s1 s2)
  with dec_run_mem_used[OF dec.hyps(1)] show ?case by simp
next
  case (drop i s s2)
  then show ?case by simp
qed

text \<open>Every allocated block stays the block of a slot, but for the releases under way.\<close>

lemma dec_run_covered: "dec_run s s' \<Longrightarrow> covered X s \<Longrightarrow> covered X s'"
proof (induction arbitrary: X rule: dec_run.induct)
  case (skip s)
  then show ?case by simp
next
  case (dec i s a)
  then show ?case by (simp add: covered_def)
next
  case (zero i s a s3)
  let ?s0 = "clear_slot i (dec_count a s)"
  have "covered (insert a X) ?s0"
    unfolding covered_def
  proof (intro ballI impI)
    fix b assume b: "b \<in> set (blocks ?s0)" "b_used b"
    with zero.prems have "b_addr b \<in> X \<or> (\<exists>j. live_at s j (b_addr b))"
      by (simp add: covered_def)
    then show "b_addr b \<in> insert a X \<or> (\<exists>j. live_at ?s0 j (b_addr b))"
    proof
      assume "b_addr b \<in> X" then show ?thesis by simp
    next
      assume "\<exists>j. live_at s j (b_addr b)"
      then obtain j where j: "live_at s j (b_addr b)" ..
      show ?thesis
      proof (cases "j = i")
        case True
        with j zero.hyps(2) have "b_addr b = a" by (simp add: live_at_def)
        then show ?thesis by simp
      next
        case False
        with j have "live_at ?s0 j (b_addr b)" by (simp add: live_at_clear)
        then show ?thesis by blast
      qed
    qed
  qed
  from zero.IH[OF this] have c3: "covered (insert a X) s3" .
  show ?case
    unfolding covered_def
  proof (intro ballI impI)
    fix b assume b: "b \<in> set (blocks (mm_free a s3))" "b_used b"
    then have "b \<in> set (blocks s3)" "b_addr b \<noteq> a"
      using used_addr_free_in[of b a "blocks s3"] by simp_all
    with c3 b(2) show "b_addr b \<in> X \<or> (\<exists>j. live_at (mm_free a s3) j (b_addr b))"
      by (auto simp: covered_def)
  qed
next
  case (seq s s1 s2)
  then show ?case by simp
qed

lemma sweep_run_covered: "sweep_run s s' \<Longrightarrow> covered X s \<Longrightarrow> covered X s'"
proof (induction rule: sweep_run.induct)
  case (skip s)
  then show ?case by simp
next
  case (dec s s1 s2)
  with dec_run_covered[OF dec.hyps(1)] show ?case by simp
next
  case (drop i s s2)
  have "live_at (clear_slot i s) j b = live_at s j b" for j b
    using drop.hyps(2) by (cases "j = i") (auto simp: live_at_clear live_at_def)
  with drop.prems have "covered X (clear_slot i s)" by (simp add: covered_def)
  with drop.IH show ?case by simp
qed

lemma dec_run_all_heap_ok: "dec_run s s' \<Longrightarrow> all_heap_ok s \<Longrightarrow> all_heap_ok s'"
  unfolding all_heap_ok_def
proof (intro allI impI)
  fix i a
  assume r: "dec_run s s'" and h: "\<forall>i a. i < length (ref_table s) \<longrightarrow> ref_table s ! i = Some a \<longrightarrow>
        (\<exists>cs. children (mem s a) = Some cs \<and> (\<forall>c\<in>set cs. 0 \<le> c \<and> c < int (num_refs s)))"
    and i: "i < length (ref_table s')" "ref_table s' ! i = Some a"
  from i dec_run_frame[OF r] have i': "i < length (ref_table s)" by simp
  with dec_run_slots[OF r i'] i(2) have "ref_table s ! i = Some a" by auto
  with h i' show "\<exists>cs. children (mem s' a) = Some cs \<and> (\<forall>c\<in>set cs. 0 \<le> c \<and> c < int (num_refs s'))"
    unfolding dec_run_children[OF r] dec_run_num_refs[OF r] by blast
qed

lemma all_heap_ok_pool: "all_heap_ok s \<Longrightarrow> pool_heap_ok s"
  unfolding all_heap_ok_def pool_heap_ok_def live_at_def by blast

lemma all_heap_ok_clear: "all_heap_ok s \<Longrightarrow> all_heap_ok (clear_slot i s)"
  unfolding all_heap_ok_def
proof (intro allI impI)
  fix j a
  assume h: "\<forall>i a. i < length (ref_table s) \<longrightarrow> ref_table s ! i = Some a \<longrightarrow>
        (\<exists>cs. children (mem s a) = Some cs \<and> (\<forall>c\<in>set cs. 0 \<le> c \<and> c < int (num_refs s)))"
    and j: "j < length (ref_table (clear_slot i s))" "ref_table (clear_slot i s) ! j = Some a"
  from j have "j < length (ref_table s)" "ref_table s ! j = Some a"
    by (cases "j = i"; simp)+
  with h show "\<exists>cs. children (mem (clear_slot i s) a) = Some cs
          \<and> (\<forall>c\<in>set cs. 0 \<le> c \<and> c < int (num_refs (clear_slot i s)))"
    by (simp add: num_refs_def)
qed

lemma pool_count_clear_le: "pool_count (clear_slot i s) \<le> pool_count s"
  unfolding pool_count_def
proof (rule filter_count_mono)
  show "length (ref_table s) = length (ref_table (clear_slot i s))" by simp
  show "\<forall>j<length (ref_table s).
          is_pool_address (ref_table (clear_slot i s) ! j) (clear_slot i s)
          \<longrightarrow> is_pool_address (ref_table s ! j) s"
  proof (intro allI impI)
    fix j assume j: "j < length (ref_table s)"
      and p: "is_pool_address (ref_table (clear_slot i s) ! j) (clear_slot i s)"
    show "is_pool_address (ref_table s ! j) s"
    proof (cases "j = i")
      case True
      with j p show ?thesis by simp
    next
      case False
      with p show ?thesis by simp
    qed
  qed
qed

lemma sweep_total:
  "\<forall>i\<in>set is. i < length (ref_table s) \<Longrightarrow> all_heap_ok s \<Longrightarrow> pool_count s < n
   \<Longrightarrow> \<exists>s'. sweep n is s = Inr s' \<and> sweep_run s s'
         \<and> (\<forall>i\<in>set is. ref_table s' ! i = None \<or> is_pool_address (ref_table s' ! i) s')"
proof (induction "is" arbitrary: s)
  case Nil
  then show ?case by (simp add: sweep_run.skip)
next
  case (Cons i "is")
  from Cons.prems(1) have i: "i < length (ref_table s)"
    and rest: "\<forall>j\<in>set is. j < length (ref_table s)" by simp_all
  show ?case
  proof (cases "\<not> is_pool_address (ref_table s ! i) s \<and> ref_table s ! i \<noteq> None")
    case False
    from Cons.IH[OF rest Cons.prems(2,3)] obtain s' where
      s': "sweep n is s = Inr s'" "sweep_run s s'"
      "\<forall>j\<in>set is. ref_table s' ! j = None \<or> is_pool_address (ref_table s' ! j) s'" by blast
    from sweep_run_slots[OF s'(2) i] False sweep_run_pool[OF s'(2)]
    have "ref_table s' ! i = None \<or> is_pool_address (ref_table s' ! i) s'" by auto
    with s' False show ?thesis by auto
  next
    case True
    then obtain a where a: "ref_table s ! i = Some a" "\<not> is_pool_address (Some a) s" by auto
    from Cons.prems(2) i a(1) obtain cs where
      cs: "children (mem s a) = Some cs" "\<forall>c\<in>set cs. 0 \<le> c \<and> c < int (num_refs s)"
      unfolding all_heap_ok_def by blast
    from foreach_decref_total[where n = n and cs = cs and s = s, OF decref_total]
      cs(2) all_heap_ok_pool[OF Cons.prems(2)] Cons.prems(3)
    obtain s1 where s1: "foreach_global (decref n) cs s = Inr s1" by blast
    then have td: "traverse_decref n a s = Inr s1"
      by (simp add: traverse_decref_children cs(1) del: traverse_decref.simps)
    note r1 = traverse_decref_run[OF td]
    let ?t = "clear_slot i s1"
    have i1: "i < length (ref_table s1)" using i dec_run_frame[OF r1] by simp
    have np1: "\<not> is_pool_address (ref_table s1 ! i) s1"
      using dec_run_slots[OF r1 i] a dec_run_pool[OF r1] by auto
    have rest': "\<forall>j\<in>set is. j < length (ref_table ?t)"
      using rest dec_run_frame[OF r1] by simp
    have ok': "all_heap_ok ?t"
      using all_heap_ok_clear[OF dec_run_all_heap_ok[OF r1 Cons.prems(2)]] .
    have pc': "pool_count ?t < n"
      using pool_count_clear_le[of i s1] dec_run_pool_count[OF r1] Cons.prems(3) by simp
    from Cons.IH[OF rest' ok' pc'] obtain s' where
      s': "sweep n is ?t = Inr s'" "sweep_run ?t s'"
      "\<forall>j\<in>set is. ref_table s' ! j = None \<or> is_pool_address (ref_table s' ! j) s'" by blast
    have it: "i < length (ref_table ?t)" using i1 by simp
    from sweep_run_slots[OF s'(2) it] i1 have "ref_table s' ! i = None" by auto
    moreover have "sweep n (i # is) s = Inr s'"
      using True a(1) td s'(1)
      by (simp add: clear_slot_def del: traverse_decref.simps)
    moreover have "sweep_run s s'"
      using sweep_run.dec[OF r1 sweep_run.drop[OF i1 np1 s'(2)]] .
    ultimately show ?thesis using s'(3) by auto
  qed
qed

lemma swap_spaces_simps [simp]:
  "mem (swap_spaces s) = mem s"
  "blocks (swap_spaces s) = blocks s"
  "ref_table (swap_spaces s) = ref_table s"
  "released (swap_spaces s) = released s"
  "mm_base (swap_spaces s) = mm_base s"
  "mm_size (swap_spaces s) = mm_size s"
  "from_space (swap_spaces s) = to_space s"
  "to_space (swap_spaces s) = from_space s"
  "pool_size (swap_spaces s) = pool_size s"
  "max_refs (swap_spaces s) = max_refs s"
  "host_slots (swap_spaces s) = host_slots s"
  by (simp_all add: swap_spaces_def)

lemma is_pool_address_swap [simp]:
  "is_pool_address p (swap_spaces s) = is_pool_address p s"
  by (cases p) (simp_all add: is_pool_address_def)

lemma swap_spaces_preds [simp]:
  "num_refs (swap_spaces s) = num_refs s"
  "live_at (swap_spaces s) i a = live_at s i a"
  "mem_used (swap_spaces s) = mem_used s"
  "pool_count (swap_spaces s) = pool_count s"
  by (simp_all add: num_refs_def live_at_def mem_used_def pool_count_def)

lemma swap_spaces_wf [simp]:
  "wf (swap_spaces s) = wf s"
  "covered X (swap_spaces s) = covered X s"
  "all_heap_ok (swap_spaces s) = all_heap_ok s"
  by (simp_all add: wf_def alloc_ok_def inj_slots_def sized_def covered_def all_heap_ok_def)

lemma mm_init_simps [simp]:
  "mem (mm_init z b s) = mem s"
  "blocks (mm_init z b s) = [Block b z False]"
  "ref_table (mm_init z b s) = ref_table s"
  "released (mm_init z b s) = released s"
  "mm_base (mm_init z b s) = b"
  "mm_size (mm_init z b s) = z"
  "from_space (mm_init z b s) = from_space s"
  "to_space (mm_init z b s) = to_space s"
  "pool_size (mm_init z b s) = pool_size s"
  "max_refs (mm_init z b s) = max_refs s"
  "host_slots (mm_init z b s) = host_slots s"
  "num_refs (mm_init z b s) = num_refs s"
  by (simp_all add: mm_init_def num_refs_def)

lemma sum_list_distinct_subset:
  fixes f :: "'a \<Rightarrow> nat"
  assumes "distinct xs" "distinct ys" "set xs \<subseteq> set ys"
  shows "sum_list (map f xs) \<le> sum_list (map f ys)"
proof -
  have "sum_list (map f xs) = sum f (set xs)"
    using assms(1) by (rule sum_list_distinct_conv_sum_set)
  also have "\<dots> \<le> sum f (set ys)"
    by (rule sum_mono2) (use assms(3) in auto)
  also have "\<dots> = sum_list (map f ys)"
    using assms(2) by (rule sum_list_distinct_conv_sum_set[symmetric])
  finally show ?thesis .
qed

lemma used_distinct:
  "alloc_ok s \<Longrightarrow> distinct (filter b_used (blocks s))"
  using chain_used_unique[of "mm_base s" "blocks s" "mm_base s + mm_size s"]
  by (auto simp: alloc_ok_def distinct_map)

lemma live_bytes_le:
  assumes "table_ok s"
  shows "sum_list (map (\<lambda>a. value_size (mem s a)) (slot_addrs s)) \<le> mem_used s"
proof -
  let ?B = "\<lambda>a. Block a (value_size (mem s a)) True"
  from assms have d: "distinct (slot_addrs s)" and ok: "alloc_ok s"
    and m: "\<forall>a\<in>set (slot_addrs s). ?B a \<in> set (blocks s)"
    by (simp_all add: table_ok_def list_all_iff)
  have "distinct (map ?B (slot_addrs s))"
    using d by (simp add: distinct_map inj_on_def)
  moreover have "set (map ?B (slot_addrs s)) \<subseteq> set (filter b_used (blocks s))"
    using m by auto
  ultimately have "sum_list (map b_size (map ?B (slot_addrs s)))
      \<le> sum_list (map b_size (filter b_used (blocks s)))"
    using used_distinct[OF ok] by (intro sum_list_distinct_subset)
  then show ?thesis by (simp add: mem_used_def o_def)
qed

lemma mem_used_le_size: "alloc_ok s \<Longrightarrow> mem_used s \<le> mm_size s"
proof -
  assume "alloc_ok s"
  then have "mm_base s + sum_list (map b_size (blocks s)) = mm_base s + mm_size s"
    by (auto simp: alloc_ok_def dest: chain_total)
  moreover have "mem_used s \<le> sum_list (map b_size (blocks s))"
    unfolding mem_used_def by (rule sum_list_filter_le_nat)
  ultimately show ?thesis by simp
qed

text \<open>The state in which the copy starts: the allocator reset over the reserve region.\<close>

lemma steady_slot:
  assumes "steady s" "i < length (ref_table s)" "ref_table s ! i = Some a"
  shows "is_pool_address (Some a) s"
    and "\<not> is_pool_address (Some a) (mm_init (pool_size s) (to_space s) s)"
proof -
  from assms(2) have "ref_table s ! i \<in> set (ref_table s)" by (rule nth_mem)
  with assms(1,3) show p: "is_pool_address (Some a) s"
    by (auto simp: steady_def list_all_iff)
  with assms(1) show "\<not> is_pool_address (Some a) (mm_init (pool_size s) (to_space s) s)"
    by (auto simp: steady_def is_pool_address_def)
qed

lemma steady_init:
  assumes st: "steady s" and cl: "closed U s"
  shows "copy_inv U (mm_init (pool_size s) (to_space s) s)"
    and "all_heap_ok (mm_init (pool_size s) (to_space s) s)"
    and "\<And>i a. \<not> live_at (mm_init (pool_size s) (to_space s) s) i a"
proof -
  let ?s0 = "mm_init (pool_size s) (to_space s) s"
  from st have tk: "table_ok s" by (simp add: steady_def)
  show nl: "\<not> live_at ?s0 i a" for i a
    using steady_slot(2)[OF st, of i a] by (auto simp: live_at_def)
  have ok0: "alloc_ok ?s0" by (simp add: alloc_ok_def)
  have w0: "wf ?s0" using nl ok0 by (simp add: wf_def inj_slots_def sized_def)
  have c0: "compact (blocks ?s0)"
    unfolding compact_def by (intro exI[of _ "[]"] exI[of _ "[Block (to_space s) (pool_size s) False]"]) simp
  have fe: "filter (stale ?s0) (ref_table s) = filter (\<lambda>p. is_pool_address p s) (ref_table s)"
  proof (rule filter_cong[OF refl])
    fix p assume p: "p \<in> set (ref_table s)"
    then obtain i where i: "i < length (ref_table s)" "ref_table s ! i = p"
      by (auto simp: in_set_conv_nth)
    show "stale ?s0 p = is_pool_address p s"
    proof (cases p)
      case None
      then show ?thesis by (simp add: stale_def is_pool_address_def)
    next
      case (Some a)
      with steady_slot[OF st i(1), of a] i(2) show ?thesis by (simp add: stale_def)
    qed
  qed
  have "stale_bytes ?s0 = sum_list (map (\<lambda>a. value_size (mem s a)) (slot_addrs s))"
    unfolding stale_bytes_def slot_addrs_def by (simp add: fe o_def)
  also have "\<dots> \<le> mem_used s" by (rule live_bytes_le[OF tk])
  also have "\<dots> \<le> mm_size s" using tk by (intro mem_used_le_size) (simp add: table_ok_def)
  finally have sb: "stale_bytes ?s0 \<le> pool_size s" using st by (simp add: steady_def)
  have mu: "mem_used ?s0 = 0" by (simp add: mem_used_def)
  have cl0: "closed U ?s0" using cl by (simp add: closed_def)
  from w0 c0 sb mu cl0 show "copy_inv U ?s0" by (simp add: copy_inv_def)
  show "all_heap_ok ?s0"
    unfolding all_heap_ok_def
  proof (intro allI impI)
    fix i a assume i: "i < length (ref_table ?s0)" "ref_table ?s0 ! i = Some a"
    then have "live_at s i a" using steady_slot(1)[OF st, of i a] by (simp add: live_at_def)
    with table_ok_pool_heap_ok[OF tk]
    show "\<exists>cs. children (mem ?s0 a) = Some cs \<and> (\<forall>c\<in>set cs. 0 \<le> c \<and> c < int (num_refs ?s0))"
      by (simp add: pool_heap_ok_def)
  qed
qed

lemma copy_run_all_heap_ok:
  assumes r: "copy_run U s s'" and w: "wf s" and h: "all_heap_ok s"
  shows "all_heap_ok s'"
  unfolding all_heap_ok_def
proof (intro allI impI)
  fix i a' assume i: "i < length (ref_table s')" "ref_table s' ! i = Some a'"
  from i copy_run_frame[OF r] have i': "i < length (ref_table s)" by simp
  obtain a where a: "ref_table s ! i = Some a"
    using copy_run_none[OF r w i'] i(2) by (cases "ref_table s ! i") auto
  from copy_run_val[OF r w i' a] i(2) have "mem s' a' = mem s a" by auto
  with h i' a show "\<exists>cs. children (mem s' a') = Some cs
      \<and> (\<forall>c\<in>set cs. 0 \<le> c \<and> c < int (num_refs s'))"
    unfolding all_heap_ok_def copy_run_num_refs[OF r] by simp
qed

text \<open>The phases of a collection, each with what it guarantees.\<close>

lemma collect_phases:
  assumes st: "steady s" and cl: "closed U s" and rt: "set roots \<subseteq> U"
    and fuel: "num_refs s < n"
  shows "\<exists>s1 s'. foreach_global (copy_contents n) roots (mm_init (pool_size s) (to_space s) s)
                   = Inr s1
           \<and> copy_run U (mm_init (pool_size s) (to_space s) s) s1
           \<and> sweep_run (swap_spaces s1) s'
           \<and> collect_garbage n roots s = Inr s'
           \<and> (\<forall>i<length (ref_table s).
                 ref_table s' ! i = None \<or> is_pool_address (ref_table s' ! i) s')"
proof -
  let ?s0 = "mm_init (pool_size s) (to_space s) s"
  note i0 = steady_init[OF st cl]
  have sc: "stale_count ?s0 < n"
    using fuel by (simp add: stale_count_def num_refs_def le_less_trans[OF length_filter_le])
  from foreach_copy_total[where n = n and U = U and cs = roots and s = ?s0,
      OF copy_contents_total rt i0(1) sc]
  obtain s1 where s1: "foreach_global (copy_contents n) roots ?s0 = Inr s1"
    "copy_run U ?s0 s1" by blast
  from i0(1) have w0: "wf ?s0" by (simp add: copy_inv_def)
  let ?s2 = "swap_spaces s1"
  have len: "length (ref_table s1) = length (ref_table s)"
    using copy_run_frame[OF s1(2)] by simp
  have h2: "all_heap_ok ?s2" using copy_run_all_heap_ok[OF s1(2) w0 i0(2)] by simp
  have pc: "pool_count ?s2 < n"
    using pool_count_le[of s1] fuel len by (simp add: num_refs_def)
  have ix: "\<forall>i\<in>set [0..<num_refs ?s2]. i < length (ref_table ?s2)" by (simp add: num_refs_def)
  from sweep_total[OF ix h2 pc] obtain s' where
    s': "sweep n [0..<num_refs ?s2] ?s2 = Inr s'" "sweep_run ?s2 s'"
    "\<forall>i\<in>set [0..<num_refs ?s2]. ref_table s' ! i = None \<or> is_pool_address (ref_table s' ! i) s'"
    by blast
  have "collect_garbage n roots s = Inr s'"
    using s1(1) s'(1) by (simp add: collect_garbage_def Let_def swap_spaces_def)
  moreover have "\<forall>i<length (ref_table s).
      ref_table s' ! i = None \<or> is_pool_address (ref_table s' ! i) s'"
    using s'(3) len by (simp add: num_refs_def)
  ultimately show ?thesis using s1 s'(2) by blast
qed

lemma get_ref_from_first:
  "i < length xs \<Longrightarrow> xs ! i = v \<Longrightarrow> \<forall>j<i. xs ! j \<noteq> v
   \<Longrightarrow> get_ref_from k xs v = Inr (int (k + i))"
proof (induction xs arbitrary: k i)
  case Nil
  then show ?case by simp
next
  case (Cons x xs)
  show ?case
  proof (cases i)
    case 0
    with Cons.prems show ?thesis by simp
  next
    case (Suc m)
    with Cons.prems have "x \<noteq> v" by auto
    moreover from Suc Cons.prems have "m < length xs" "xs ! m = v" "\<forall>j<m. xs ! j \<noteq> v"
      by auto
    from Cons.IH[OF this, of "Suc k"] have "get_ref_from (Suc k) xs v = Inr (int (k + i))"
      using Suc by simp
    ultimately show ?thesis by simp
  qed
qed

lemma get_ref_deref:
  assumes inj: "inj_slots t" and d: "deref h t = Inr a"
    and allp: "\<forall>i<length (ref_table t). ref_table t ! i = None
                 \<or> is_pool_address (ref_table t ! i) t"
  shows "get_ref (Some a) t = Inr h"
proof -
  from d have h: "0 \<le> h" "nat h < length (ref_table t)" "ref_table t ! nat h = Some a"
    "is_pool_address (Some a) t"
    by (auto simp: deref_def num_refs_def split: if_splits option.splits)
  have "\<forall>j<nat h. ref_table t ! j \<noteq> Some a"
  proof (intro allI impI notI)
    fix j assume j: "j < nat h" "ref_table t ! j = Some a"
    with h have "live_at t j a" "live_at t (nat h) a" by (simp_all add: live_at_def)
    with inj j(1) show False by (auto simp: inj_slots_def)
  qed
  from get_ref_from_first[OF h(2,3) this, of 0] h(1) show ?thesis by (simp add: get_ref_def)
qed

text \<open>What a collection does to a slot and to the value it designates.\<close>

lemma collect_slots:
  assumes st: "steady s" and cl: "closed U s" and rt: "set roots \<subseteq> U"
    and fuel: "num_refs s < n"
  shows "\<exists>s' new. collect_garbage n roots s = Inr s' \<and> wf s' \<and> covered {} s'
           \<and> length (ref_table s') = length (ref_table s)
           \<and> mm_base s' = to_space s \<and> mm_size s' = pool_size s
           \<and> from_space s' = to_space s \<and> to_space s' = from_space s
           \<and> pool_size s' = pool_size s
           \<and> (\<forall>i<length (ref_table s).
                 ref_table s' ! i = None \<or> is_pool_address (ref_table s' ! i) s')
           \<and> (\<forall>i<length (ref_table s). int i \<notin> U \<longrightarrow> ref_table s' ! i = None)
           \<and> (\<forall>i<length (ref_table s). \<forall>a'. ref_table s' ! i = Some a' \<longrightarrow>
                 (\<exists>a. ref_table s ! i = Some a \<and> type (mem s' a') = type (mem s a)
                     \<and> value_size (mem s' a') = value_size (mem s a)
                     \<and> payload (mem s' a') = payload (mem s a)))
           \<and> released s' = new @ released s
           \<and> (\<forall>a\<in>set new. is_pool_address (Some a) s')
           \<and> (\<forall>i<length (ref_table s). \<forall>a. ref_table s ! i = Some a \<longrightarrow> a \<notin> set new)"
proof -
  let ?s0 = "mm_init (pool_size s) (to_space s) s"
  from collect_phases[OF st cl rt fuel] obtain s1 s' where
    p: "copy_run U ?s0 s1" "sweep_run (swap_spaces s1) s'" "collect_garbage n roots s = Inr s'"
    "\<forall>i<length (ref_table s). ref_table s' ! i = None \<or> is_pool_address (ref_table s' ! i) s'"
    by blast
  let ?s2 = "swap_spaces s1"
  note i0 = steady_init[OF st cl]
  from i0(1) have w0: "wf ?s0" by (simp add: copy_inv_def)
  note w1 = copy_run_wf[OF p(1) w0]
  have w': "wf s'" using sweep_run_wf[OF p(2)] w1 by simp
  have "covered {} ?s0" by (simp add: covered_def)
  from copy_run_covered[OF p(1) w0 this] have "covered {} ?s2" by simp
  from sweep_run_covered[OF p(2) this] have cv: "covered {} s'" .
  note f1 = copy_run_frame[OF p(1)]
  note f2 = sweep_run_frame[OF p(2)]
  have pool': "is_pool_address q s' = is_pool_address q ?s0" for q
    using sweep_run_pool[OF p(2)] copy_run_pool[OF p(1)] by simp
  have garbage: "ref_table s' ! i = None" if i: "i < length (ref_table s)" "int i \<notin> U" for i
  proof (rule ccontr)
    assume "ref_table s' ! i \<noteq> None"
    then obtain a' where a': "ref_table s' ! i = Some a'" by auto
    from i f1 have i2: "i < length (ref_table ?s2)" by simp
    from sweep_run_slots[OF p(2) i2] a' have "ref_table s1 ! i = Some a'" by auto
    moreover from copy_run_slots[OF p(1) w0, of i] i have "ref_table s1 ! i = ref_table s ! i"
      by auto
    ultimately have "ref_table s ! i = Some a'" by simp
    from steady_slot(2)[OF st i(1) this] p(4) i(1) a' pool' show False by auto
  qed
  have val: "\<exists>a. ref_table s ! i = Some a \<and> type (mem s' a') = type (mem s a)
                     \<and> value_size (mem s' a') = value_size (mem s a)
                     \<and> payload (mem s' a') = payload (mem s a)"
    if i: "i < length (ref_table s)" "ref_table s' ! i = Some a'" for i a'
  proof -
    from i f1 have i2: "i < length (ref_table ?s2)" by simp
    from sweep_run_slots[OF p(2) i2] i(2) have s1i: "ref_table s1 ! i = Some a'" by auto
    have i0': "i < length (ref_table ?s0)" using i(1) by simp
    obtain a where a: "ref_table s ! i = Some a"
      using copy_run_none[OF p(1) w0 i0'] s1i by (cases "ref_table s ! i") auto
    from copy_run_val[OF p(1) w0 i0', of a] a s1i have "mem s1 a' = mem s a" by auto
    with sweep_run_mem[OF p(2), of a'] a show ?thesis by simp
  qed
  from sweep_run_released[OF p(2)] obtain new where
    new: "released s' = new @ released ?s2" "\<forall>a\<in>set new. is_pool_address (Some a) ?s2" by blast
  have r1: "released s' = new @ released s" using new(1) f1 by simp
  have r2: "\<forall>a\<in>set new. is_pool_address (Some a) s'"
    using new(2) sweep_run_pool[OF p(2)] by simp
  have r3: "a \<notin> set new" if "i < length (ref_table s)" "ref_table s ! i = Some a" for i a
    using steady_slot(2)[OF st that] r2 pool' by auto
  have fr: "length (ref_table s') = length (ref_table s)" "mm_base s' = to_space s"
    "mm_size s' = pool_size s" "from_space s' = to_space s" "to_space s' = from_space s"
    "pool_size s' = pool_size s"
    using f1 f2 by simp_all
  from p(3) w' cv fr p(4) garbage val r1 r2 r3 show ?thesis by blast
qed

section \<open>What a sweep releases\<close>

lemma reach_mono:
  assumes n: "num_refs s' = num_refs s"
    and sl: "\<And>i. i < length (ref_table s) \<Longrightarrow>
               ref_table s' ! i = ref_table s ! i \<or> ref_table s' ! i = None"
    and ch: "\<And>a. children (mem s' a) = children (mem s a)"
    and h: "h \<in> reach s' rs"
  shows "h \<in> reach s rs"
  using h
proof (induction rule: reach.induct)
  case (root r)
  then show ?case by (rule reach.root)
next
  case (child h a cs c)
  from child.hyps(2,3) n have lt: "nat h < length (ref_table s)" by (simp add: num_refs_def)
  from sl[OF lt] child.hyps(4) have "ref_table s ! nat h = Some a" by auto
  moreover from child.hyps(3) n have "h < int (num_refs s)" by simp
  moreover from child.hyps(5) ch have "children (mem s a) = Some cs" by simp
  ultimately show ?case using child.IH child.hyps(2,6) by (blast intro: reach.child)
qed

lemma reach_trans:
  assumes c: "c \<in> reach s rs" and h: "h \<in> reach s [c]"
  shows "h \<in> reach s rs"
  using h
proof (induction rule: reach.induct)
  case (root r)
  with c show ?case by simp
next
  case (child h a cs c')
  then show ?case by (blast intro: reach.child)
qed

lemma dec_run_reach:
  assumes r: "dec_run s s'" and h: "h \<in> reach s' rs"
  shows "h \<in> reach s rs"
proof (rule reach_mono[OF dec_run_num_refs[OF r] _ dec_run_children[OF r] h])
  fix i assume "i < length (ref_table s)"
  from dec_run_slots[OF r this]
  show "ref_table s' ! i = ref_table s ! i \<or> ref_table s' ! i = None" by auto
qed

lemma clear_dec_reach:
  assumes h: "h \<in> reach (clear_slot i (dec_count a s)) rs"
  shows "h \<in> reach s rs"
proof (rule reach_mono[OF _ _ _ h])
  show "num_refs (clear_slot i (dec_count a s)) = num_refs s" by (simp add: num_refs_def)
  show "children (mem (clear_slot i (dec_count a s)) b) = children (mem s b)" for b
    by (simp add: children_def)
  fix j assume "j < length (ref_table s)"
  then show "ref_table (clear_slot i (dec_count a s)) ! j = ref_table s ! j
        \<or> ref_table (clear_slot i (dec_count a s)) ! j = None"
    by (cases "j = i") simp_all
qed

lemma clear_reach:
  assumes h: "h \<in> reach (clear_slot i s) rs"
  shows "h \<in> reach s rs"
proof (rule reach_mono[OF _ _ _ h])
  show "num_refs (clear_slot i s) = num_refs s" by (simp add: num_refs_def)
  show "children (mem (clear_slot i s) b) = children (mem s b)" for b by simp
  fix j assume "j < length (ref_table s)"
  then show "ref_table (clear_slot i s) ! j = ref_table s ! j
        \<or> ref_table (clear_slot i s) ! j = None"
    by (cases "j = i") simp_all
qed

text \<open>
  Every value that a call of \<open>decref\<close> releases is the value of a handle that the
  handle of the call reaches.
\<close>

lemma foreach_released_reach:
  assumes ih: "\<And>r (t :: 'w::len state) t' new b. decref n r t = Inr t'
                 \<Longrightarrow> released t' = new @ released t \<Longrightarrow> b \<in> set new
                 \<Longrightarrow> \<exists>h. h \<in> reach t [r] \<and> 0 \<le> h \<and> live_at t (nat h) b"
  shows "foreach_global (decref n) cs (t :: 'w state) = Inr t'
         \<Longrightarrow> \<exists>new. released t' = new @ released t
               \<and> (\<forall>b\<in>set new. \<exists>c\<in>set cs. \<exists>h. h \<in> reach t [c] \<and> 0 \<le> h
                      \<and> live_at t (nat h) b)"
proof (induction cs arbitrary: t)
  case Nil
  then show ?case by simp
next
  case (Cons c cs)
  from Cons.prems obtain t1 where 1: "decref n c t = Inr t1"
    and 2: "foreach_global (decref n) cs t1 = Inr t'"
    by (auto simp del: decref.simps split: sum.splits)
  note r = decref_run[OF 1]
  from dec_run_released[OF r] obtain n1 where n1: "released t1 = n1 @ released t" by blast
  from Cons.IH[OF 2] obtain n2 where n2: "released t' = n2 @ released t1"
    "\<forall>b\<in>set n2. \<exists>c\<in>set cs. \<exists>h. h \<in> reach t1 [c] \<and> 0 \<le> h \<and> live_at t1 (nat h) b"
    by blast
  have "\<exists>c'\<in>set (c # cs). \<exists>h. h \<in> reach t [c'] \<and> 0 \<le> h \<and> live_at t (nat h) b"
    if b: "b \<in> set (n2 @ n1)" for b
  proof (cases "b \<in> set n1")
    case True
    from ih[OF 1 n1 True] show ?thesis by auto
  next
    case False
    with b have "b \<in> set n2" by simp
    with n2(2) obtain c' h where "c' \<in> set cs" "h \<in> reach t1 [c']" "0 \<le> h"
      "live_at t1 (nat h) b" by blast
    from this(1) dec_run_reach[OF r this(2)] this(3) dec_run_live[OF r this(4)]
    show ?thesis by auto
  qed
  with n1 n2(1) show ?case by auto
qed

lemma decref_released_reach:
  "decref n r t = Inr t' \<Longrightarrow> released t' = new @ released t \<Longrightarrow> b \<in> set new
   \<Longrightarrow> \<exists>h. h \<in> reach t [r] \<and> 0 \<le> h \<and> live_at t (nat h) b"
proof (induction n arbitrary: r t t' new b)
  case 0
  then show ?case by simp
next
  case (Suc n)
  from Suc.prems(1) have rng: "0 \<le> r" "r < int (num_refs t)"
    by (auto simp: decref_Suc simp del: decref.simps split: if_splits)
  then have lt: "nat r < length (ref_table t)" by (simp add: num_refs_def)
  show ?case
  proof (cases "ref_table t ! nat r")
    case None
    with Suc.prems rng show ?thesis by (simp add: decref_Suc del: decref.simps)
  next
    case (Some a)
    show ?thesis
    proof (cases "is_pool_address (Some a) t \<and> ref_count (mem t a) = 1")
      case False
      with Suc.prems rng Some show ?thesis
        by (auto simp: decref_Suc simp del: decref.simps split: if_splits)
    next
      case True
      let ?t0 = "clear_slot (nat r) (dec_count a t)"
      from Suc.prems(1) rng Some True obtain cs t3 where
        cs: "children (mem t a) = Some cs"
        and f: "foreach_global (decref n) cs ?t0 = Inr t3"
        and e: "t' = mm_free a t3"
        by (auto simp: decref_Suc simp del: decref.simps split: option.splits sum.splits)
      from foreach_released_reach[where n = n, OF _ f] Suc.IH obtain n3 where
        n3: "released t3 = n3 @ released ?t0"
        "\<forall>b\<in>set n3. \<exists>c\<in>set cs. \<exists>h. h \<in> reach ?t0 [c] \<and> 0 \<le> h \<and> live_at ?t0 (nat h) b"
        by blast
      from e n3(1) Suc.prems(2) have new: "new = a # n3" by simp
      have la: "live_at t (nat r) a" using lt Some True by (simp add: live_at_def)
      show ?thesis
      proof (cases "b = a")
        case True
        moreover have "r \<in> reach t [r]" by (rule reach.root) simp
        ultimately show ?thesis using la rng(1) by blast
      next
        case False
        with new Suc.prems(3) have "b \<in> set n3" by simp
        with n3(2) obtain c h where c: "c \<in> set cs" and h: "h \<in> reach ?t0 [c]" "0 \<le> h"
          "live_at ?t0 (nat h) b" by blast
        have "r \<in> reach t [r]" by (rule reach.root) simp
        from reach.child[OF this rng Some cs c] have "c \<in> reach t [r]" .
        from reach_trans[OF this clear_dec_reach[OF h(1)]] have "h \<in> reach t [r]" .
        moreover from h(3) have "live_at t (nat h) b" by (simp add: live_at_clear)
        ultimately show ?thesis using h(2) by blast
      qed
    qed
  qed
qed

lemma sweep_released_reach:
  "sweep n js t = Inr t' \<Longrightarrow> \<forall>i\<in>set js. i < length (ref_table t)
   \<Longrightarrow> \<exists>new. released t' = new @ released t
         \<and> (\<forall>b\<in>set new. \<exists>i\<in>set js. \<exists>h. ref_table t ! i \<noteq> None
                \<and> \<not> is_pool_address (ref_table t ! i) t
                \<and> h \<in> reach t [int i] \<and> 0 \<le> h \<and> live_at t (nat h) b)"
proof (induction js arbitrary: t)
  case Nil
  then show ?case by simp
next
  case (Cons i js)
  from Cons.prems(2) have i: "i < length (ref_table t)"
    and js: "\<forall>j\<in>set js. j < length (ref_table t)" by simp_all
  show ?case
  proof (cases "\<not> is_pool_address (ref_table t ! i) t \<and> ref_table t ! i \<noteq> None")
    case False
    with Cons.prems(1) have "sweep n js t = Inr t'" by (auto simp del: traverse_decref.simps)
    from Cons.IH[OF this js] show ?thesis by auto
  next
    case True
    then obtain a where a: "ref_table t ! i = Some a" "\<not> is_pool_address (Some a) t" by auto
    let ?c = "\<lambda>t1 :: 'a state. clear_slot i t1"
    from Cons.prems(1) True a obtain t1 where
      td: "traverse_decref n a t = Inr t1" and sw: "sweep n js (?c t1) = Inr t'"
      by (auto simp del: traverse_decref.simps simp: clear_slot_def split: sum.splits)
    from td obtain cs where cs: "children (mem t a) = Some cs"
      and f: "foreach_global (decref n) cs t = Inr t1"
      unfolding traverse_decref_children by (auto split: option.splits)
    note r = traverse_decref_run[OF td]
    from foreach_released_reach[where n = n, OF _ f] decref_released_reach obtain n1 where
      n1: "released t1 = n1 @ released t"
      "\<forall>b\<in>set n1. \<exists>c\<in>set cs. \<exists>h. h \<in> reach t [c] \<and> 0 \<le> h \<and> live_at t (nat h) b"
      by blast
    have len1: "length (ref_table t1) = length (ref_table t)" using dec_run_frame[OF r] by simp
    from js len1 have js1: "\<forall>j\<in>set js. j < length (ref_table (?c t1))" by simp
    from Cons.IH[OF sw js1] obtain n2 where
      n2: "released t' = n2 @ released (?c t1)"
      "\<forall>b\<in>set n2. \<exists>j\<in>set js. \<exists>h. ref_table (?c t1) ! j \<noteq> None
                \<and> \<not> is_pool_address (ref_table (?c t1) ! j) (?c t1)
                \<and> h \<in> reach (?c t1) [int j] \<and> 0 \<le> h \<and> live_at (?c t1) (nat h) b"
      by blast
    have ri: "int i \<in> reach t [int i]" by (rule reach.root) simp
    have "\<exists>j\<in>set (i # js). \<exists>h. ref_table t ! j \<noteq> None
                \<and> \<not> is_pool_address (ref_table t ! j) t
                \<and> h \<in> reach t [int j] \<and> 0 \<le> h \<and> live_at t (nat h) b"
      if b: "b \<in> set (n2 @ n1)" for b
    proof (cases "b \<in> set n1")
      case True
      with n1(2) obtain c h where c: "c \<in> set cs" and h: "h \<in> reach t [c]" "0 \<le> h"
        "live_at t (nat h) b" by blast
      have "c \<in> reach t [int i]"
        using reach.child[OF ri _ _ _ cs c, of ] i a(1) by (simp add: num_refs_def)
      from reach_trans[OF this h(1)] h(2,3) a show ?thesis by auto
    next
      case False
      with b have "b \<in> set n2" by simp
      with n2(2) obtain j h where j: "j \<in> set js" "ref_table (?c t1) ! j \<noteq> None"
        "\<not> is_pool_address (ref_table (?c t1) ! j) (?c t1)"
        and h: "h \<in> reach (?c t1) [int j]" "0 \<le> h" "live_at (?c t1) (nat h) b" by blast
      from j(1) js have jl: "j < length (ref_table t)" by simp
      from j(2) have ji: "j \<noteq> i" using jl len1 by auto
      with j(2) have s1: "ref_table t1 ! j \<noteq> None" by simp
      with dec_run_slots[OF r jl] have e: "ref_table t1 ! j = ref_table t ! j" by auto
      from j(3) ji e dec_run_pool[OF r] have np: "\<not> is_pool_address (ref_table t ! j) t"
        by simp
      from dec_run_reach[OF r clear_reach[OF h(1)]] have hr: "h \<in> reach t [int j]" .
      from h(3) have "live_at t1 (nat h) b" by (simp add: live_at_clear)
      from dec_run_live[OF r this] have "live_at t (nat h) b" .
      with j(1) s1 e np hr h(2) show ?thesis by auto
    qed
    with n1(1) n2(1) show ?thesis by auto
  qed
qed

text \<open>Every value that a run releases has the count zero, and its slot is cleared.\<close>

lemma dec_run_touch: "dec_run s s' \<Longrightarrow> \<forall>i. \<not> live_at s i b \<Longrightarrow> mem s' b = mem s b"
proof (induction rule: dec_run.induct)
  case (skip s)
  then show ?case by simp
next
  case (dec i s a)
  then have "live_at s i a" by (simp add: live_at_def)
  with dec.prems have "a \<noteq> b" by auto
  then show ?case by simp
next
  case (zero i s a s3)
  then have "live_at s i a" by (simp add: live_at_def)
  with zero.prems have "a \<noteq> b" by auto
  moreover from zero.prems have "\<forall>j. \<not> live_at (clear_slot i (dec_count a s)) j b"
    by (simp add: live_at_clear)
  ultimately show ?case using zero.IH by simp
next
  case (seq s s1 s2)
  from seq.prems dec_run_live[OF seq.hyps(1)] have "\<forall>i. \<not> live_at s1 i b" by blast
  with seq show ?case by simp
qed

lemma inj_slots_sub:
  "inj_slots s \<Longrightarrow> (\<And>i a. live_at s' i a \<Longrightarrow> live_at s i a) \<Longrightarrow> inj_slots s'"
  unfolding inj_slots_def by blast

lemma dec_run_zero_count:
  "dec_run s s' \<Longrightarrow> inj_slots s \<Longrightarrow>
     \<exists>new. released s' = new @ released s
         \<and> (\<forall>b\<in>set new. ref_count (mem s' b) = 0
                \<and> (\<exists>i. live_at s i b \<and> ref_table s' ! i = None))"
proof (induction rule: dec_run.induct)
  case (skip s)
  then show ?case by simp
next
  case (dec i s a)
  then show ?case by simp
next
  case (zero i s a s3)
  let ?s0 = "clear_slot i (dec_count a s)"
  have la: "live_at s i a" using zero.hyps by (simp add: live_at_def)
  have inj0: "inj_slots ?s0"
    by (rule inj_slots_sub[OF zero.prems]) (simp add: live_at_clear)
  from zero.IH[OF inj0] obtain n3 where n3: "released s3 = n3 @ released ?s0"
    "\<forall>b\<in>set n3. ref_count (mem s3 b) = 0 \<and> (\<exists>j. live_at ?s0 j b \<and> ref_table s3 ! j = None)"
    by blast
  have nl: "\<forall>j. \<not> live_at ?s0 j a"
  proof (intro allI notI)
    fix j assume "live_at ?s0 j a"
    then have "live_at s j a" "j \<noteq> i" by (simp_all add: live_at_clear)
    with la zero.prems show False by (auto simp: inj_slots_def)
  qed
  from dec_run_touch[OF zero.hyps(5) nl] zero.hyps(4) have c0: "ref_count (mem s3 a) = 0"
    by simp
  have "ref_table ?s0 ! i = None" using zero.hyps(1) by simp
  from dec_run_dead[OF zero.hyps(5) _ this] zero.hyps(1) have si: "ref_table s3 ! i = None"
    by simp
  have "ref_count (mem (mm_free a s3) b) = 0
        \<and> (\<exists>j. live_at s j b \<and> ref_table (mm_free a s3) ! j = None)"
    if "b \<in> set (a # n3)" for b
  proof (cases "b = a")
    case True
    with c0 la si show ?thesis by auto
  next
    case False
    with that n3(2) show ?thesis by (auto simp: live_at_clear)
  qed
  with n3(1) show ?case by auto
next
  case (seq s s1 s2)
  from seq.IH(1)[OF seq.prems] obtain n1 where n1: "released s1 = n1 @ released s"
    "\<forall>b\<in>set n1. ref_count (mem s1 b) = 0 \<and> (\<exists>i. live_at s i b \<and> ref_table s1 ! i = None)"
    by blast
  have inj1: "inj_slots s1"
    by (rule inj_slots_sub[OF seq.prems]) (rule dec_run_live[OF seq.hyps(1)])
  from seq.IH(2)[OF inj1] obtain n2 where n2: "released s2 = n2 @ released s1"
    "\<forall>b\<in>set n2. ref_count (mem s2 b) = 0 \<and> (\<exists>i. live_at s1 i b \<and> ref_table s2 ! i = None)"
    by blast
  have "ref_count (mem s2 b) = 0 \<and> (\<exists>i. live_at s i b \<and> ref_table s2 ! i = None)"
    if b: "b \<in> set (n2 @ n1)" for b
  proof (cases "b \<in> set n2")
    case True
    with n2(2) dec_run_live[OF seq.hyps(1)] show ?thesis by blast
  next
    case False
    with b n1(2) obtain i where i: "ref_count (mem s1 b) = 0" "live_at s i b"
      "ref_table s1 ! i = None" by auto
    have nl: "\<forall>j. \<not> live_at s1 j b"
    proof (intro allI notI)
      fix j assume j: "live_at s1 j b"
      from dec_run_live[OF seq.hyps(1) this] i(2) seq.prems have "j = i"
        by (auto simp: inj_slots_def)
      with j i(3) show False by (simp add: live_at_def)
    qed
    from i(2) dec_run_frame[OF seq.hyps(1)] have il: "i < length (ref_table s1)"
      by (simp add: live_at_def)
    from dec_run_touch[OF seq.hyps(2) nl] i(1) dec_run_dead[OF seq.hyps(2) il i(3)] i(2)
    show ?thesis by auto
  qed
  with n1(1) n2(1) show ?case by auto
qed

lemma sweep_run_live: "sweep_run s s' \<Longrightarrow> live_at s' i a \<Longrightarrow> live_at s i a"
  using sweep_run_slots[of s s' i] sweep_run_frame[of s s'] sweep_run_pool[of s s']
  by (auto simp: live_at_def)

lemma sweep_run_dead:
  "sweep_run s s' \<Longrightarrow> i < length (ref_table s) \<Longrightarrow> ref_table s ! i = None
   \<Longrightarrow> ref_table s' ! i = None"
  using sweep_run_slots[of s s' i] by auto

lemma sweep_run_touch: "sweep_run s s' \<Longrightarrow> \<forall>i. \<not> live_at s i b \<Longrightarrow> mem s' b = mem s b"
proof (induction rule: sweep_run.induct)
  case (skip s)
  then show ?case by simp
next
  case (dec s s1 s2)
  from dec.prems dec_run_live[OF dec.hyps(1)] have "\<forall>i. \<not> live_at s1 i b" by blast
  with dec dec_run_touch[OF dec.hyps(1) dec.prems] show ?case by simp
next
  case (drop i s s2)
  from drop.prems have "\<forall>j. \<not> live_at (clear_slot i s) j b" by (simp add: live_at_clear)
  with drop.IH show ?case by simp
qed

lemma sweep_run_zero_count:
  "sweep_run s s' \<Longrightarrow> inj_slots s \<Longrightarrow>
     \<exists>new. released s' = new @ released s
         \<and> (\<forall>b\<in>set new. ref_count (mem s' b) = 0
                \<and> (\<exists>i. live_at s i b \<and> ref_table s' ! i = None))"
proof (induction rule: sweep_run.induct)
  case (skip s)
  then show ?case by simp
next
  case (dec s s1 s2)
  from dec_run_zero_count[OF dec.hyps(1) dec.prems] obtain n1 where
    n1: "released s1 = n1 @ released s"
    "\<forall>b\<in>set n1. ref_count (mem s1 b) = 0 \<and> (\<exists>i. live_at s i b \<and> ref_table s1 ! i = None)"
    by blast
  have inj1: "inj_slots s1"
    by (rule inj_slots_sub[OF dec.prems]) (rule dec_run_live[OF dec.hyps(1)])
  from dec.IH[OF inj1] obtain n2 where n2: "released s2 = n2 @ released s1"
    "\<forall>b\<in>set n2. ref_count (mem s2 b) = 0 \<and> (\<exists>i. live_at s1 i b \<and> ref_table s2 ! i = None)"
    by blast
  have "ref_count (mem s2 b) = 0 \<and> (\<exists>i. live_at s i b \<and> ref_table s2 ! i = None)"
    if b: "b \<in> set (n2 @ n1)" for b
  proof (cases "b \<in> set n2")
    case True
    with n2(2) dec_run_live[OF dec.hyps(1)] show ?thesis by blast
  next
    case False
    with b n1(2) obtain i where i: "ref_count (mem s1 b) = 0" "live_at s i b"
      "ref_table s1 ! i = None" by auto
    have nl: "\<forall>j. \<not> live_at s1 j b"
    proof (intro allI notI)
      fix j assume j: "live_at s1 j b"
      from dec_run_live[OF dec.hyps(1) this] i(2) dec.prems have "j = i"
        by (auto simp: inj_slots_def)
      with j i(3) show False by (simp add: live_at_def)
    qed
    from i(2) dec_run_frame[OF dec.hyps(1)] have il: "i < length (ref_table s1)"
      by (simp add: live_at_def)
    from sweep_run_touch[OF dec.hyps(2) nl] i(1) sweep_run_dead[OF dec.hyps(2) il i(3)] i(2)
    show ?thesis by auto
  qed
  with n1(1) n2(1) show ?case by auto
next
  case (drop i s s2)
  have inj0: "inj_slots (clear_slot i s)"
    by (rule inj_slots_sub[OF drop.prems]) (simp add: live_at_clear)
  from drop.IH[OF inj0] obtain new where n: "released s2 = new @ released (clear_slot i s)"
    "\<forall>b\<in>set new. ref_count (mem s2 b) = 0
        \<and> (\<exists>j. live_at (clear_slot i s) j b \<and> ref_table s2 ! j = None)"
    by blast
  have "ref_count (mem s2 b) = 0 \<and> (\<exists>j. live_at s j b \<and> ref_table s2 ! j = None)"
    if "b \<in> set new" for b
  proof -
    from n(2) that obtain j where "ref_count (mem s2 b) = 0" "live_at (clear_slot i s) j b"
      "ref_table s2 ! j = None" by blast
    then show ?thesis by (auto simp: live_at_clear)
  qed
  with n(1) show ?case by auto
qed

section \<open>Properties of a collection\<close>

lemma set_count_simps [simp]:
  "blocks (set_count a c s) = blocks s"
  "ref_table (set_count a c s) = ref_table s"
  "released (set_count a c s) = released s"
  "mm_base (set_count a c s) = mm_base s"
  "mm_size (set_count a c s) = mm_size s"
  "from_space (set_count a c s) = from_space s"
  "to_space (set_count a c s) = to_space s"
  "pool_size (set_count a c s) = pool_size s"
  "num_refs (set_count a c s) = num_refs s"
  "value_size (mem (set_count a c s) x) = value_size (mem s x)"
  "type (mem (set_count a c s) x) = type (mem s x)"
  "payload (mem (set_count a c s) x) = payload (mem s x)"
  "children (mem (set_count a c s) x) = children (mem s x)"
  "ref_count (mem (set_count a c s) a) = c"
  by (simp_all add: set_count_def num_refs_def children_def)

lemma is_pool_address_set_count [simp]:
  "is_pool_address p (set_count a c s) = is_pool_address p s"
  by (cases p) (simp_all add: is_pool_address_def)

lemma steady_set_count [simp]: "steady (set_count a c s) = steady s"
  by (simp add: steady_def table_ok_def alloc_ok_def slot_addrs_def cong: option.case_cong)

lemma closed_set_count [simp]: "closed U (set_count a c s) = closed U s"
  by (simp add: closed_def)

lemma set_count_twice [simp]: "set_count a c (set_count a d s) = set_count a c s"
  by (simp add: set_count_def)

lemma dec_count_set_count: "dec_count a s = set_count a (ref_count (mem s a) - 1) s"
  by (simp add: dec_count_def set_count_def)

text \<open>Fewer decrements than the count: the value stays, with what is left of the count.\<close>

lemma decref_replicate:
  assumes "0 \<le> h" "h < int (num_refs s)" "ref_table s ! nat h = Some a"
    "is_pool_address (Some a) s" "k < unat (ref_count (mem s a))"
  shows "\<exists>c. foreach_global (decref (Suc n)) (replicate k h) s = Inr (set_count a c s)
           \<and> unat c + k = unat (ref_count (mem s a))"
  using assms
proof (induction k arbitrary: s)
  case 0
  have "set_count a (ref_count (mem s a)) s = s" by (simp add: set_count_def)
  then show ?case by (intro exI[of _ "ref_count (mem s a)"]) simp
next
  case (Suc k)
  let ?c = "ref_count (mem s a)"
  from Suc.prems(5) have c1: "?c \<noteq> 1" and c0: "?c \<noteq> 0" by auto
  have d: "decref (Suc n) h s = Inr (set_count a (?c - 1) s)"
    using Suc.prems(1-4) c1 by (simp add: decref_Suc dec_count_set_count del: decref.simps)
  let ?s1 = "set_count a (?c - 1) s"
  have u: "unat (?c - 1) = unat ?c - 1" using c0 by (simp add: unat_minus_one)
  have "k < unat (ref_count (mem ?s1 a))" using Suc.prems(5) u by simp
  from Suc.IH[of ?s1] Suc.prems(1-4) this obtain c where
    c: "foreach_global (decref (Suc n)) (replicate k h) ?s1 = Inr (set_count a c s)"
    "unat c + k = unat (?c - 1)" by (auto simp del: decref.simps)
  from c(2) u Suc.prems(5) have "unat c + Suc k = unat ?c" by simp
  with c(1) d show ?case by (intro exI[of _ c]) (simp del: decref.simps)
qed

text \<open>
  The example: the collection of \<open>heap4\<close> with handles 0 and 2 as roots keeps the
  two scalars and clears the slots of the scalar at handle 1 and of the list at handle 3.
\<close>

lemma steady_heap4: "steady heap4"
  by (simp add: steady_def table_ok_def alloc_ok_def slot_addrs_def heap4_def is_pool_address_def
      children_def scalar24_def self_list_def num_refs_def)

lemma closed_heap4: "closed {0, 2} heap4"
  by (simp add: closed_def heap4_def num_refs_def scalar24_def children_def)

lemma num_refs_heap4: "num_refs heap4 = 4"
  by (simp add: num_refs_def heap4_def)

lemma upt_4: "[0..<4] = [0, 1, 2, Suc 2]"
  by (simp add: upt_rec)

lemma fuel_5: "(5::nat) = Suc (Suc (Suc (Suc (Suc 0))))"
  by simp

lemma collect_heap4:
  "\<exists>s'. collect_garbage 5 [0, 2] heap4 = Inr s'
        \<and> ref_table s' = [Some 6144, None, Some 6168, None] \<and> released s' = []
        \<and> mem_used s' = 48 \<and> mm_base s' = 6144 \<and> mm_size s' = 2048
        \<and> mem s' 6168 = scalar24"
  unfolding fuel_5
  by (simp add: collect_garbage_def heap4_def mm_init_def table_at_def num_refs_def upt_4
      is_pool_address_def mm_malloc_def scalar24_def self_list_def Let_def deref_def mem_used_def)

text \<open>
  C10. In the sweep of \<open>collect_garbage\<close>, the step at a slot that holds an address
  outside the active region calls \<open>decref\<close> on the children of the value (the child of
  a list, the keys and then the values of a dictionary, the entries of a reference array
  other than \<open>NULL_REF\<close> and \<open>TOMBSTONE_REF\<close>, none for another kind) and clears the slot,
  with no \<open>mm_free\<close> of the value. A collection of a steady state returns; with \<open>s1\<close>
  the state after the copy, every slot that was not relocated is cleared, and no old
  address of a value of the table is released or lies in the new active region. Every
  address that the collection releases lies in the new active region, holds a count of
  zero, and was after the copy the address of a handle that a slot not relocated reaches
  through children, and that slot of the handle is cleared.
\<close>

theorem sweep_keeps_old_storage:
  assumes st: "steady s" and cl: "closed U s" and rt: "set roots \<subseteq> U"
    and fuel: "num_refs s < n"
  shows "(\<forall>(t :: 'w::len state) i js a.
            ref_table t ! i = Some a \<and> \<not> is_pool_address (Some a) t \<longrightarrow>
              (\<forall>c. type (mem t a) = VAL_LIST \<and> payload (mem t a) = List_data c \<longrightarrow>
                 sweep n (i # js) t =
                   (case decref n c t of
                      Inl e \<Rightarrow> Inl e
                    | Inr t1 \<Rightarrow> sweep n js (clear_slot i t1)))
              \<and> (\<forall>ks vs. type (mem t a) = VAL_DICT \<and> payload (mem t a) = Dict_data ks vs \<longrightarrow>
                 sweep n (i # js) t =
                   (case decref n ks t of
                      Inl e \<Rightarrow> Inl e
                    | Inr t1 \<Rightarrow>
                        (case decref n vs t1 of
                           Inl e \<Rightarrow> Inl e
                         | Inr t2 \<Rightarrow> sweep n js (clear_slot i t2))))
              \<and> (\<forall>arr. type (mem t a) = VAL_REF_ARRAY \<and> payload (mem t a) = Ref_array_data arr
                   \<longrightarrow>
                 sweep n (i # js) t =
                   (case foreach_global (decref n)
                           (filter (\<lambda>r. r \<noteq> NULL_REF \<and> r \<noteq> TOMBSTONE_REF) arr) t of
                      Inl e \<Rightarrow> Inl e
                    | Inr t1 \<Rightarrow> sweep n js (clear_slot i t1)))
              \<and> (type (mem t a) \<noteq> VAL_LIST \<and> type (mem t a) \<noteq> VAL_DICT
                   \<and> type (mem t a) \<noteq> VAL_REF_ARRAY \<longrightarrow>
                 sweep n (i # js) t = sweep n js (clear_slot i t)))
         \<and> (\<exists>s1 s' new.
               foreach_global (copy_contents n) roots (mm_init (pool_size s) (to_space s) s)
                 = Inr s1
               \<and> sweep n [0..<num_refs s1] (swap_spaces s1) = Inr s'
               \<and> collect_garbage n roots (s :: 'w state) = Inr s'
               \<and> released s' = new @ released s
               \<and> (\<forall>i<num_refs s. \<forall>a. ref_table s ! i = Some a \<longrightarrow>
                     a \<notin> set new \<and> \<not> is_pool_address (Some a) s'
                     \<and> (\<not> is_pool_address (ref_table s1 ! i) s1 \<longrightarrow>
                          ref_table s1 ! i = Some a \<and> ref_table s' ! i = None))
               \<and> (\<forall>i<num_refs s. int i \<notin> U \<longrightarrow> ref_table s' ! i = None)
               \<and> (\<forall>b\<in>set new. is_pool_address (Some b) s' \<and> ref_count (mem s' b) = 0
                     \<and> (\<exists>i h. i < num_refs s \<and> ref_table s1 ! i \<noteq> None
                            \<and> \<not> is_pool_address (ref_table s1 ! i) s1
                            \<and> h \<in> reach s1 [int i] \<and> 0 \<le> h \<and> h < int (num_refs s)
                            \<and> ref_table s1 ! nat h = Some b \<and> ref_table s' ! nat h = None)))"
proof -
  have step: "(\<forall>c. type (mem t a) = VAL_LIST \<and> payload (mem t a) = List_data c \<longrightarrow>
                 sweep n (i # js) t =
                   (case decref n c t of
                      Inl e \<Rightarrow> Inl e
                    | Inr t1 \<Rightarrow> sweep n js (clear_slot i t1)))
              \<and> (\<forall>ks vs. type (mem t a) = VAL_DICT \<and> payload (mem t a) = Dict_data ks vs \<longrightarrow>
                 sweep n (i # js) t =
                   (case decref n ks t of
                      Inl e \<Rightarrow> Inl e
                    | Inr t1 \<Rightarrow>
                        (case decref n vs t1 of
                           Inl e \<Rightarrow> Inl e
                         | Inr t2 \<Rightarrow> sweep n js (clear_slot i t2))))
              \<and> (\<forall>arr. type (mem t a) = VAL_REF_ARRAY \<and> payload (mem t a) = Ref_array_data arr
                   \<longrightarrow>
                 sweep n (i # js) t =
                   (case foreach_global (decref n)
                           (filter (\<lambda>r. r \<noteq> NULL_REF \<and> r \<noteq> TOMBSTONE_REF) arr) t of
                      Inl e \<Rightarrow> Inl e
                    | Inr t1 \<Rightarrow> sweep n js (clear_slot i t1)))
              \<and> (type (mem t a) \<noteq> VAL_LIST \<and> type (mem t a) \<noteq> VAL_DICT
                   \<and> type (mem t a) \<noteq> VAL_REF_ARRAY \<longrightarrow>
                 sweep n (i # js) t = sweep n js (clear_slot i t))"
    if h: "ref_table t ! i = Some a \<and> \<not> is_pool_address (Some a) t"
    for t :: "'w state" and i js a
  proof -
    have 1: "sweep n (i # js) t =
              (case traverse_decref n a t of
                 Inl e \<Rightarrow> Inl e
               | Inr t1 \<Rightarrow> sweep n js (clear_slot i t1))"
      using h by (simp add: clear_slot_def del: traverse_decref.simps cong: sum.case_cong)
    have l: "sweep n (i # js) t =
               (case decref n c t of Inl e \<Rightarrow> Inl e | Inr t1 \<Rightarrow> sweep n js (clear_slot i t1))"
      if "type (mem t a) = VAL_LIST \<and> payload (mem t a) = List_data c" for c
      unfolding 1 using that by simp
    have d: "sweep n (i # js) t =
               (case decref n ks t of
                  Inl e \<Rightarrow> Inl e
                | Inr t1 \<Rightarrow>
                    (case decref n vs t1 of
                       Inl e \<Rightarrow> Inl e
                     | Inr t2 \<Rightarrow> sweep n js (clear_slot i t2)))"
      if "type (mem t a) = VAL_DICT \<and> payload (mem t a) = Dict_data ks vs" for ks vs
      unfolding 1 using that by (simp split: sum.splits)
    have r: "sweep n (i # js) t =
               (case foreach_global (decref n)
                       (filter (\<lambda>r. r \<noteq> NULL_REF \<and> r \<noteq> TOMBSTONE_REF) arr) t of
                  Inl e \<Rightarrow> Inl e
                | Inr t1 \<Rightarrow> sweep n js (clear_slot i t1))"
      if "type (mem t a) = VAL_REF_ARRAY \<and> payload (mem t a) = Ref_array_data arr" for arr
      unfolding 1 traverse_decref_children using that by (simp add: children_def)
    have o: "sweep n (i # js) t = sweep n js (clear_slot i t)"
      if "type (mem t a) \<noteq> VAL_LIST \<and> type (mem t a) \<noteq> VAL_DICT
          \<and> type (mem t a) \<noteq> VAL_REF_ARRAY"
      unfolding 1 using that by simp
    show ?thesis by (intro conjI allI impI) (rule l d r o, assumption)+
  qed
  let ?s0 = "mm_init (pool_size s) (to_space s) s"
  from collect_phases[OF st cl rt fuel] obtain s1 s' where
    p: "foreach_global (copy_contents n) roots ?s0 = Inr s1" "copy_run U ?s0 s1"
    "sweep_run (swap_spaces s1) s'" "collect_garbage n roots s = Inr s'"
    "\<forall>i<length (ref_table s). ref_table s' ! i = None \<or> is_pool_address (ref_table s' ! i) s'"
    by blast
  let ?s2 = "swap_spaces s1"
  from collect_slots[OF st cl rt fuel] p(4) obtain new where
    c: "mm_base s' = to_space s" "mm_size s' = pool_size s"
    "\<forall>i<length (ref_table s). int i \<notin> U \<longrightarrow> ref_table s' ! i = None"
    "released s' = new @ released s"
    "\<forall>i<length (ref_table s). \<forall>a. ref_table s ! i = Some a \<longrightarrow> a \<notin> set new"
    by auto
  note i0 = steady_init[OF st cl]
  from i0(1) have w0: "wf ?s0" by (simp add: copy_inv_def)
  note w1 = copy_run_wf[OF p(2) w0]
  note f1 = copy_run_frame[OF p(2)]
  note f2 = sweep_run_frame[OF p(3)]
  have len1: "length (ref_table s1) = length (ref_table s)" using f1 by simp
  have sw: "sweep n [0..<num_refs s1] ?s2 = Inr s'"
    using p(1,4) by (simp add: collect_garbage_def Let_def swap_spaces_def num_refs_def)
  have pool': "is_pool_address q s' = is_pool_address q s1" for q
    using sweep_run_pool[OF p(3), of q] by simp
  have rel2: "released ?s2 = released s" using f1 by simp
  have old: "a \<notin> set new \<and> \<not> is_pool_address (Some a) s'
             \<and> (\<not> is_pool_address (ref_table s1 ! i) s1 \<longrightarrow>
                  ref_table s1 ! i = Some a \<and> ref_table s' ! i = None)"
    if i: "i < num_refs s" "ref_table s ! i = Some a" for i a
  proof -
    from i(1) have il: "i < length (ref_table s)" by (simp add: num_refs_def)
    have np: "\<not> is_pool_address (Some a) s'"
      using steady_slot(2)[OF st il i(2)] c(1,2) by (simp add: is_pool_address_def)
    have "ref_table s1 ! i = Some a \<and> ref_table s' ! i = None"
      if n1: "\<not> is_pool_address (ref_table s1 ! i) s1"
    proof -
      from il have "i < length (ref_table ?s0)" by simp
      from copy_run_slots[OF p(2) w0 this] n1 copy_run_pool[OF p(2)]
      have e: "ref_table s1 ! i = Some a" using i(2) by auto
      from il len1 have "i < length (ref_table ?s2)" by simp
      from sweep_run_slots[OF p(3) this] e
      have "ref_table s' ! i = Some a \<or> ref_table s' ! i = None" by auto
      with p(5) il np e show ?thesis by auto
    qed
    with c(5) il i(2) np show ?thesis by blast
  qed
  from w1 have inj2: "inj_slots ?s2" by (simp add: wf_def inj_slots_def)
  from sweep_run_zero_count[OF p(3) inj2] c(4) rel2 have
    z: "\<forall>b\<in>set new. ref_count (mem s' b) = 0
          \<and> (\<exists>i. live_at ?s2 i b \<and> ref_table s' ! i = None)" by auto
  have ix: "\<forall>i\<in>set [0..<num_refs s1]. i < length (ref_table ?s2)"
    by (simp add: num_refs_def)
  from sweep_released_reach[OF sw ix] c(4) rel2 have
    rr: "\<forall>b\<in>set new. \<exists>i\<in>set [0..<num_refs s1]. \<exists>h. ref_table ?s2 ! i \<noteq> None
                \<and> \<not> is_pool_address (ref_table ?s2 ! i) ?s2
                \<and> h \<in> reach ?s2 [int i] \<and> 0 \<le> h \<and> live_at ?s2 (nat h) b" by auto
  have reach2: "h \<in> reach s1 rs" if "h \<in> reach ?s2 rs" for h rs
    by (rule reach_mono[OF _ _ _ that]) (simp_all add: num_refs_def)
  have gone: "is_pool_address (Some b) s' \<and> ref_count (mem s' b) = 0
                \<and> (\<exists>i h. i < num_refs s \<and> ref_table s1 ! i \<noteq> None
                       \<and> \<not> is_pool_address (ref_table s1 ! i) s1
                       \<and> h \<in> reach s1 [int i] \<and> 0 \<le> h \<and> h < int (num_refs s)
                       \<and> ref_table s1 ! nat h = Some b \<and> ref_table s' ! nat h = None)"
    if b: "b \<in> set new" for b
  proof -
    from z b obtain j where j: "ref_count (mem s' b) = 0" "live_at ?s2 j b"
      "ref_table s' ! j = None" by blast
    from rr b obtain i h where i: "i < num_refs s1" "ref_table s1 ! i \<noteq> None"
      "\<not> is_pool_address (ref_table s1 ! i) s1" and h: "h \<in> reach ?s2 [int i]" "0 \<le> h"
      "live_at ?s2 (nat h) b" by auto
    from inj2 j(2) h(3) have e: "j = nat h" by (auto simp: inj_slots_def)
    from h(3) have l: "nat h < length (ref_table s1)" "ref_table s1 ! nat h = Some b"
      "is_pool_address (Some b) s1" by (simp_all add: live_at_def)
    from l(1) h(2) len1 have "h < int (num_refs s)" by (simp add: num_refs_def)
    moreover from i(1) len1 have "i < num_refs s" by (simp add: num_refs_def)
    ultimately show ?thesis
      using j(1,3) e i(2,3) reach2[OF h(1)] h(2) l(2,3) pool' by blast
  qed
  have cleared: "\<forall>i<num_refs s. int i \<notin> U \<longrightarrow> ref_table s' ! i = None"
    using c(3) by (simp add: num_refs_def)
  have O: "\<forall>i<num_refs s. \<forall>a. ref_table s ! i = Some a \<longrightarrow>
                     a \<notin> set new \<and> \<not> is_pool_address (Some a) s'
                     \<and> (\<not> is_pool_address (ref_table s1 ! i) s1 \<longrightarrow>
                          ref_table s1 ! i = Some a \<and> ref_table s' ! i = None)"
    using old by blast
  have G: "\<forall>b\<in>set new. is_pool_address (Some b) s' \<and> ref_count (mem s' b) = 0
                     \<and> (\<exists>i h. i < num_refs s \<and> ref_table s1 ! i \<noteq> None
                            \<and> \<not> is_pool_address (ref_table s1 ! i) s1
                            \<and> h \<in> reach s1 [int i] \<and> 0 \<le> h \<and> h < int (num_refs s)
                            \<and> ref_table s1 ! nat h = Some b \<and> ref_table s' ! nat h = None)"
    using gone by blast
  have B: "\<exists>s1 s' new.
               foreach_global (copy_contents n) roots (mm_init (pool_size s) (to_space s) s)
                 = Inr s1
               \<and> sweep n [0..<num_refs s1] (swap_spaces s1) = Inr s'
               \<and> collect_garbage n roots (s :: 'w state) = Inr s'
               \<and> released s' = new @ released s
               \<and> (\<forall>i<num_refs s. \<forall>a. ref_table s ! i = Some a \<longrightarrow>
                     a \<notin> set new \<and> \<not> is_pool_address (Some a) s'
                     \<and> (\<not> is_pool_address (ref_table s1 ! i) s1 \<longrightarrow>
                          ref_table s1 ! i = Some a \<and> ref_table s' ! i = None))
               \<and> (\<forall>i<num_refs s. int i \<notin> U \<longrightarrow> ref_table s' ! i = None)
               \<and> (\<forall>b\<in>set new. is_pool_address (Some b) s' \<and> ref_count (mem s' b) = 0
                     \<and> (\<exists>i h. i < num_refs s \<and> ref_table s1 ! i \<noteq> None
                            \<and> \<not> is_pool_address (ref_table s1 ! i) s1
                            \<and> h \<in> reach s1 [int i] \<and> 0 \<le> h \<and> h < int (num_refs s)
                            \<and> ref_table s1 ! nat h = Some b \<and> ref_table s' ! nat h = None))"
    using p(1) sw p(4) c(4) O cleared G by blast
  have A: "\<forall>(t :: 'w state) i js a.
            ref_table t ! i = Some a \<and> \<not> is_pool_address (Some a) t \<longrightarrow>
              (\<forall>c. type (mem t a) = VAL_LIST \<and> payload (mem t a) = List_data c \<longrightarrow>
                 sweep n (i # js) t =
                   (case decref n c t of
                      Inl e \<Rightarrow> Inl e
                    | Inr t1 \<Rightarrow> sweep n js (clear_slot i t1)))
              \<and> (\<forall>ks vs. type (mem t a) = VAL_DICT \<and> payload (mem t a) = Dict_data ks vs \<longrightarrow>
                 sweep n (i # js) t =
                   (case decref n ks t of
                      Inl e \<Rightarrow> Inl e
                    | Inr t1 \<Rightarrow>
                        (case decref n vs t1 of
                           Inl e \<Rightarrow> Inl e
                         | Inr t2 \<Rightarrow> sweep n js (clear_slot i t2))))
              \<and> (\<forall>arr. type (mem t a) = VAL_REF_ARRAY \<and> payload (mem t a) = Ref_array_data arr
                   \<longrightarrow>
                 sweep n (i # js) t =
                   (case foreach_global (decref n)
                           (filter (\<lambda>r. r \<noteq> NULL_REF \<and> r \<noteq> TOMBSTONE_REF) arr) t of
                      Inl e \<Rightarrow> Inl e
                    | Inr t1 \<Rightarrow> sweep n js (clear_slot i t1)))
              \<and> (type (mem t a) \<noteq> VAL_LIST \<and> type (mem t a) \<noteq> VAL_DICT
                   \<and> type (mem t a) \<noteq> VAL_REF_ARRAY \<longrightarrow>
                 sweep n (i # js) t = sweep n js (clear_slot i t))"
    by (intro allI impI) (rule step)
  show ?thesis by (rule conjI[OF A B])
qed

lemma fuel_4: "(4::nat) = Suc (Suc (Suc (Suc 0)))"
  by simp

lemma upt_3: "[0..<3] = [0, Suc 0, 2]"
  by (simp add: upt_rec numeral_eq_Suc)

lemma steady_dict3: "steady dict3"
  by (simp add: steady_def table_ok_def alloc_ok_def slot_addrs_def dict3_def is_pool_address_def
      children_def scalar24_def dict_of01_def num_refs_def)

lemma closed_dict3: "closed {0, 1} dict3"
  by (simp add: closed_def dict3_def num_refs_def scalar24_def children_def)

theorem sweep_keeps_old_storage_witness:
  "steady dict3 \<and> closed {0, 1} dict3 \<and> set [0, 1] \<subseteq> {0, 1 :: int} \<and> num_refs dict3 < 4
   \<and> (\<exists>s'. collect_garbage 4 [0, 1] dict3 = Inr s' \<and> released s' = [6168]
          \<and> ref_table s' = [Some 6144, None, None]
          \<and> ref_count (mem s' 6144) = 1 \<and> ref_count (mem s' 6168) = 0
          \<and> 4144 \<notin> set (released s') \<and> \<not> is_pool_address (Some 4144) s')"
proof -
  have h3: "set [0, 1] \<subseteq> {0, 1 :: int}" by simp
  have h4: "num_refs dict3 < 4" by (simp add: num_refs_def dict3_def)
  from conjunct2[OF sweep_keeps_old_storage [OF steady_dict3 closed_dict3 h3 h4]]
  obtain s1 :: "32 state" and s' new where
    c: "collect_garbage 4 [0, 1] dict3 = Inr s'" "released s' = new @ released dict3"
    "\<forall>i<num_refs dict3. \<forall>a. ref_table dict3 ! i = Some a \<longrightarrow>
        a \<notin> set new \<and> \<not> is_pool_address (Some a) s'
        \<and> (\<not> is_pool_address (ref_table s1 ! i) s1 \<longrightarrow>
             ref_table s1 ! i = Some a \<and> ref_table s' ! i = None)"
    by blast
  have e: "\<exists>s'. collect_garbage 4 [0, 1] dict3 = Inr s' \<and> released s' = [6168]
          \<and> ref_table s' = [Some 6144, None, None]
          \<and> ref_count (mem s' 6144) = 1 \<and> ref_count (mem s' 6168) = 0"
    unfolding fuel_4
    by (simp add: collect_garbage_def dict3_def mm_init_def table_at_def num_refs_def upt_3
        is_pool_address_def mm_malloc_def mm_free_def scalar24_def dict_of01_def Let_def
        deref_def)
  have t: "ref_table dict3 ! 2 = Some 4144" "(2::nat) < num_refs dict3"
    by (simp_all add: dict3_def num_refs_def)
  from c(3)[rule_format, OF t(2) t(1)] c(2)
  have "4144 \<notin> set (released s')" "\<not> is_pool_address (Some 4144) s'"
    by (simp_all add: dict3_def)
  with e c(1) steady_dict3 closed_dict3 h3 h4 show ?thesis by auto
qed


text \<open>
  C4. In a steady state the handle found for the location of a live handle is that
  handle. A collection returns a state where this holds again, and where the value of a
  live handle has the kind, the size and the data of the value the handle had before.
\<close>

theorem handle_stability:
  assumes st: "steady s" and cl: "closed U s" and rt: "set roots \<subseteq> U"
    and fuel: "num_refs s < n"
  shows "(\<forall>h a. deref h s = Inr a \<longrightarrow> get_ref (Some a) s = Inr h)
         \<and> (\<exists>s'. collect_garbage n roots s = Inr s'
              \<and> (\<forall>h a'. deref h s' = Inr a' \<longrightarrow>
                    get_ref (Some a') s' = Inr h
                    \<and> (\<exists>a. deref h s = Inr a \<and> type (mem s' a') = type (mem s a)
                          \<and> value_size (mem s' a') = value_size (mem s a)
                          \<and> payload (mem s' a') = payload (mem s a))))"
proof -
  from st have tk: "table_ok s" by (simp add: steady_def)
  have allp: "\<forall>i<length (ref_table s). ref_table s ! i = None
                 \<or> is_pool_address (ref_table s ! i) s"
    using st by (auto simp: steady_def list_all_iff)
  have before: "get_ref (Some a) s = Inr h" if "deref h s = Inr a" for h a
    using get_ref_deref[OF _ that allp] table_ok_wf[OF tk] by (simp add: wf_def)
  from collect_slots[OF st cl rt fuel] obtain s' where
    c: "collect_garbage n roots s = Inr s'" "wf s'"
    "length (ref_table s') = length (ref_table s)"
    "\<forall>i<length (ref_table s). ref_table s' ! i = None \<or> is_pool_address (ref_table s' ! i) s'"
    "\<forall>i<length (ref_table s). \<forall>a'. ref_table s' ! i = Some a' \<longrightarrow>
                 (\<exists>a. ref_table s ! i = Some a \<and> type (mem s' a') = type (mem s a)
                     \<and> value_size (mem s' a') = value_size (mem s a)
                     \<and> payload (mem s' a') = payload (mem s a))"
    by blast
  have after: "get_ref (Some a') s' = Inr h
                    \<and> (\<exists>a. deref h s = Inr a \<and> type (mem s' a') = type (mem s a)
                          \<and> value_size (mem s' a') = value_size (mem s a)
                          \<and> payload (mem s' a') = payload (mem s a))"
    if d: "deref h s' = Inr a'" for h a'
  proof -
    from c(2) have inj: "inj_slots s'" by (simp add: wf_def)
    from c(3,4) have allp': "\<forall>i<length (ref_table s'). ref_table s' ! i = None
                 \<or> is_pool_address (ref_table s' ! i) s'" by simp
    from d have h: "0 \<le> h" "nat h < length (ref_table s')" "ref_table s' ! nat h = Some a'"
      by (auto simp: deref_def num_refs_def split: if_splits option.splits)
    from c(5) h c(3) obtain a where a: "ref_table s ! nat h = Some a"
      "type (mem s' a') = type (mem s a)" "value_size (mem s' a') = value_size (mem s a)"
      "payload (mem s' a') = payload (mem s a)" by auto
    from steady_slot(1)[OF st _ a(1)] h c(3) have "deref h s = Inr a"
      by (simp add: deref_def num_refs_def a(1))
    with get_ref_deref[OF inj d allp'] a show ?thesis by simp
  qed
  from before c(1) after show ?thesis by blast
qed

theorem handle_stability_witness:
  "steady heap4 \<and> closed {0, 2} heap4 \<and> set [0, 2] \<subseteq> {0, 2 :: int} \<and> num_refs heap4 < 5
   \<and> deref 2 heap4 = Inr 4144 \<and> get_ref (Some 4144) heap4 = Inr 2
   \<and> (\<exists>s'. collect_garbage 5 [0, 2] heap4 = Inr s' \<and> deref 2 s' = Inr 6168
          \<and> get_ref (Some 6168) s' = Inr 2 \<and> type (mem s' 6168) = type (mem heap4 4144))"
proof -
  have h3: "set [0, 2] \<subseteq> {0, 2 :: int}" by simp
  have h4: "num_refs heap4 < 5" by (simp add: num_refs_heap4)
  have d: "deref 2 heap4 = Inr 4144"
    by (simp add: deref_def heap4_def num_refs_def is_pool_address_def)
  from handle_stability [OF steady_heap4 closed_heap4 h3 h4] obtain s' where
    b: "\<forall>h a. deref h heap4 = Inr a \<longrightarrow> get_ref (Some a) heap4 = Inr h"
    and c: "collect_garbage 5 [0, 2] heap4 = Inr s'"
    "\<forall>h a'. deref h s' = Inr a' \<longrightarrow>
        get_ref (Some a') s' = Inr h
        \<and> (\<exists>a. deref h heap4 = Inr a \<and> type (mem s' a') = type (mem heap4 a)
              \<and> value_size (mem s' a') = value_size (mem heap4 a)
              \<and> payload (mem s' a') = payload (mem heap4 a))"
    by blast
  from collect_heap4 c(1) have "ref_table s' = [Some 6144, None, Some 6168, None]"
    "mm_base s' = 6144" "mm_size s' = 2048" by auto
  then have d': "deref 2 s' = Inr 6168"
    by (simp add: deref_def num_refs_def is_pool_address_def)
  from c(2)[rule_format, OF d'] d have "get_ref (Some 6168) s' = Inr 2"
    "type (mem s' 6168) = type (mem heap4 4144)" by auto
  with b d d' c(1) steady_heap4 closed_heap4 h3 h4 show ?thesis by blast
qed


text \<open>
  C2. Let handle \<open>h\<close> hold a list whose child is \<open>h\<close> itself, with a count above \<open>k\<close>,
  and let no handle of \<open>U\<close>, the handles that the roots can reach, be \<open>h\<close>. Then \<open>k\<close>
  calls of \<open>decref\<close> leave the value in its slot, release nothing, and leave a count that
  is not zero; and the collection that follows returns a state where the slot is
  cleared and \<open>deref\<close> of the handle fails.
\<close>

theorem self_cycle_reclaimed_by_collect:
  assumes st: "steady s" and h: "0 \<le> h" "h < int (num_refs s)" "ref_table s ! nat h = Some a"
    and ty: "type (mem s a) = VAL_LIST" "payload (mem s a) = List_data h"
    and k: "k < unat (ref_count (mem s a))"
    and cl: "closed U s" and rt: "set roots \<subseteq> U" and nr: "h \<notin> U"
    and fuel: "num_refs s < n"
  shows "\<exists>sk. foreach_global (decref n) (replicate k h) s = Inr sk
           \<and> ref_table sk = ref_table s \<and> deref h sk = Inr a \<and> released sk = released s
           \<and> unat (ref_count (mem sk a)) + k = unat (ref_count (mem s a))
           \<and> ref_count (mem sk a) \<noteq> 0
           \<and> type (mem sk a) = VAL_LIST \<and> payload (mem sk a) = List_data h
           \<and> (\<exists>s'. collect_garbage n roots sk = Inr s' \<and> ref_table s' ! nat h = None
                  \<and> deref h s' = Inl Assert_failed)"
proof -
  from fuel obtain m where n: "n = Suc m" by (cases n) auto
  have lt: "nat h < length (ref_table s)" using h(1,2) by (simp add: num_refs_def)
  note p = steady_slot(1)[OF st lt h(3)]
  from decref_replicate[OF h p k, of m] obtain c where
    c: "foreach_global (decref n) (replicate k h) s = Inr (set_count a c s)"
    "unat c + k = unat (ref_count (mem s a))" unfolding n by blast
  let ?sk = "set_count a c s"
  from c(2) k have c0: "c \<noteq> 0" by (auto simp: unat_eq_zero)
  have dk: "deref h ?sk = Inr a" using h p by (simp add: deref_def)
  have stk: "steady ?sk" "closed U ?sk" "num_refs ?sk < n" using st cl fuel by simp_all
  from collect_slots[OF stk(1,2) rt stk(3)] obtain s' where
    s': "collect_garbage n roots ?sk = Inr s'" "length (ref_table s') = length (ref_table ?sk)"
    "\<forall>i<length (ref_table ?sk). int i \<notin> U \<longrightarrow> ref_table s' ! i = None" by blast
  have "int (nat h) \<notin> U" using nr h(1) by simp
  with s'(3) lt have g: "ref_table s' ! nat h = None" by simp
  then have "deref h s' = Inl Assert_failed"
    by (simp add: deref_def)
  with c dk c0 ty g s'(1) show ?thesis
    by (intro exI[of _ ?sk]) simp
qed

theorem self_cycle_reclaimed_by_collect_witness:
  "steady heap4 \<and> (0::int) \<le> 3 \<and> 3 < int (num_refs heap4) \<and> ref_table heap4 ! nat 3 = Some 4168
   \<and> type (mem heap4 4168) = VAL_LIST \<and> payload (mem heap4 4168) = List_data 3
   \<and> 1 < unat (ref_count (mem heap4 4168))
   \<and> closed {0, 2} heap4 \<and> set [0, 2] \<subseteq> {0, 2 :: int} \<and> 3 \<notin> {0, 2 :: int}
   \<and> num_refs heap4 < 5
   \<and> (\<exists>sk. foreach_global (decref 5) (replicate 1 3) heap4 = Inr sk
          \<and> deref 3 sk = Inr 4168 \<and> ref_count (mem sk 4168) \<noteq> 0 \<and> released sk = []
          \<and> (\<exists>s'. collect_garbage 5 [0, 2] sk = Inr s' \<and> ref_table s' ! nat 3 = None
                 \<and> deref 3 s' = Inl Assert_failed))"
proof -
  have h1: "(0::int) \<le> 3" and h2: "3 < int (num_refs heap4)" and h9: "3 \<notin> {0, 2 :: int}"
    and h8: "set [0, 2] \<subseteq> {0, 2 :: int}" and h10: "num_refs heap4 < 5"
    by (simp_all add: num_refs_heap4)
  have h3: "ref_table heap4 ! nat 3 = Some 4168" by (simp add: heap4_def)
  have h4: "type (mem heap4 4168) = VAL_LIST" and h5: "payload (mem heap4 4168) = List_data 3"
    and h6: "1 < unat (ref_count (mem heap4 4168))"
    by (simp_all add: heap4_def self_list_def)
  have r: "released heap4 = []" by (simp add: heap4_def)
  from self_cycle_reclaimed_by_collect
    [OF steady_heap4 h1 h2 h3 h4 h5 h6 closed_heap4 h8 h9 h10] r
  have "\<exists>sk. foreach_global (decref 5) (replicate 1 3) heap4 = Inr sk
          \<and> deref 3 sk = Inr 4168 \<and> ref_count (mem sk 4168) \<noteq> 0 \<and> released sk = []
          \<and> (\<exists>s'. collect_garbage 5 [0, 2] sk = Inr s' \<and> ref_table s' ! nat 3 = None
                 \<and> deref 3 s' = Inl Assert_failed)"
    by (elim exE conjE) (intro exI conjI, simp_all)
  with steady_heap4 h1 h2 h3 h4 h5 h6 closed_heap4 h8 h9 h10 show ?thesis by blast
qed

section \<open>The bytes in use across a collection\<close>

lemma finite_live_addrs: "finite (live_addrs s)"
proof -
  have "live_addrs s \<subseteq> the ` set (ref_table s)"
    unfolding live_addrs_def live_at_def by (force simp: in_set_conv_nth)
  then show ?thesis by (rule finite_subset) simp
qed

text \<open>The bytes of the table's values against the bytes the allocator counts.\<close>

lemma slot_bytes_sum:
  assumes w: "wf t"
    and allp: "\<forall>i<length (ref_table t). ref_table t ! i = None
                 \<or> is_pool_address (ref_table t ! i) t"
  shows "(\<Sum>i<length (ref_table t). slot_bytes t i)
         = (\<Sum>a\<in>live_addrs t. value_size (mem t a))"
proof -
  let ?I = "{i. i < length (ref_table t) \<and> ref_table t ! i \<noteq> None}"
  let ?g = "\<lambda>i. the (ref_table t ! i)"
  have live: "live_at t i (?g i)" if "i \<in> ?I" for i
    using that allp by (auto simp: live_at_def)
  have inj: "inj_on ?g ?I"
  proof (rule inj_onI)
    fix i j assume "i \<in> ?I" "j \<in> ?I" "?g i = ?g j"
    with live[of i] live[of j] w show "i = j" by (auto simp: wf_def inj_slots_def)
  qed
  have img: "?g ` ?I = live_addrs t"
  proof
    show "?g ` ?I \<subseteq> live_addrs t" using live by (auto simp: live_addrs_def)
    show "live_addrs t \<subseteq> ?g ` ?I"
    proof
      fix a assume "a \<in> live_addrs t"
      then obtain i where "live_at t i a" by (auto simp: live_addrs_def)
      then have "i \<in> ?I" "?g i = a" by (auto simp: live_at_def)
      then show "a \<in> ?g ` ?I" by blast
    qed
  qed
  have "(\<Sum>i<length (ref_table t). slot_bytes t i) = (\<Sum>i\<in>?I. slot_bytes t i)"
    by (rule sum.mono_neutral_right) (auto simp: slot_bytes_def)
  also have "\<dots> = (\<Sum>i\<in>?I. value_size (mem t (?g i)))"
    by (rule sum.cong) (auto simp: slot_bytes_def)
  also have "\<dots> = (\<Sum>a\<in>?g ` ?I. value_size (mem t a))"
    using sum.reindex[OF inj, of "\<lambda>a. value_size (mem t a)"] by (simp add: o_def)
  finally show ?thesis unfolding img .
qed

lemma used_sum: "alloc_ok t \<Longrightarrow> mem_used t = sum b_size (set (filter b_used (blocks t)))"
  unfolding mem_used_def using used_distinct[of t]
  by (simp add: sum_list_distinct_conv_sum_set)

lemma used_addr_inj:
  "alloc_ok t \<Longrightarrow> inj_on b_addr (set (filter b_used (blocks t)))"
  using chain_used_unique[of "mm_base t" "blocks t" "mm_base t + mm_size t"]
  by (simp add: alloc_ok_def distinct_map)

lemma live_le_used:
  assumes w: "wf t"
  shows "(\<Sum>a\<in>live_addrs t. value_size (mem t a)) \<le> mem_used t"
proof -
  let ?B = "\<lambda>a. Block a (value_size (mem t a)) True"
  from w have ok: "alloc_ok t" by (simp add: wf_def)
  have inj: "inj_on ?B (live_addrs t)" by (simp add: inj_on_def)
  have sub: "?B ` live_addrs t \<subseteq> set (filter b_used (blocks t))"
    using w by (auto simp: live_addrs_def wf_def sized_def)
  have "(\<Sum>a\<in>live_addrs t. value_size (mem t a)) = (\<Sum>b\<in>?B ` live_addrs t. b_size b)"
    using sum.reindex[OF inj, of b_size] by (simp add: o_def)
  also have "\<dots> \<le> sum b_size (set (filter b_used (blocks t)))"
    by (rule sum_mono2) (use sub in auto)
  finally show ?thesis by (simp add: used_sum[OF ok])
qed

lemma used_le_live:
  assumes w: "wf t" and c: "covered {} t"
  shows "mem_used t \<le> (\<Sum>a\<in>live_addrs t. value_size (mem t a))"
proof -
  let ?Y = "set (filter b_used (blocks t))"
  from w have ok: "alloc_ok t" by (simp add: wf_def)
  have sz: "b_size b = value_size (mem t (b_addr b))" and lv: "b_addr b \<in> live_addrs t"
    if b: "b \<in> ?Y" for b
  proof -
    from c b obtain i where i: "live_at t i (b_addr b)" by (auto simp: covered_def)
    then show "b_addr b \<in> live_addrs t" by (auto simp: live_addrs_def)
    from i w have m: "Block (b_addr b) (value_size (mem t (b_addr b))) True \<in> ?Y"
      by (auto simp: wf_def sized_def)
    have e: "b_addr (Block (b_addr b) (value_size (mem t (b_addr b))) True) = b_addr b"
      by simp
    from inj_onD[OF used_addr_inj[OF ok] e m b]
    have "Block (b_addr b) (value_size (mem t (b_addr b))) True = b" .
    then show "b_size b = value_size (mem t (b_addr b))" by (metis block.sel(2))
  qed
  have "mem_used t = (\<Sum>b\<in>?Y. value_size (mem t (b_addr b)))"
    unfolding used_sum[OF ok] by (rule sum.cong) (auto simp: sz)
  also have "\<dots> = (\<Sum>a\<in>b_addr ` ?Y. value_size (mem t a))"
    using sum.reindex[OF used_addr_inj[OF ok], of "\<lambda>a. value_size (mem t a)"]
    by (simp add: o_def)
  also have "\<dots> \<le> (\<Sum>a\<in>live_addrs t. value_size (mem t a))"
    by (rule sum_mono2) (use lv finite_live_addrs in auto)
  finally show ?thesis .
qed

lemma sum_list_upt: "sum_list (map f [0..<n]) = (\<Sum>i<n. f i)" for f :: "nat \<Rightarrow> nat"
  by (simp add: interv_sum_list_conv_sum_set_nat atLeast0LessThan)

text \<open>
  C8, as amended. A collection of a steady state returns, and the bytes in use after it,
  plus the bytes of the values whose slots it has cleared, are at most the bytes in use
  before it: the bytes in use do not grow, and they fall by at least the size of what
  was reclaimed. They fall strictly when at least one value was reclaimed.
\<close>

theorem collect_bytes_in_use:
  assumes st: "steady s" and cl: "closed U s" and rt: "set roots \<subseteq> U"
    and fuel: "num_refs s < n"
  shows "\<exists>s'. collect_garbage n roots s = Inr s'
           \<and> mem_used s' + reclaimed_bytes s s' \<le> mem_used s
           \<and> ((\<exists>i<num_refs s. ref_table s ! i \<noteq> None \<and> ref_table s' ! i = None)
                \<longrightarrow> mem_used s' < mem_used s)"
proof -
  let ?n = "length (ref_table s)"
  from st have tk: "table_ok s" by (simp add: steady_def)
  note w = table_ok_wf[OF tk]
  have allp: "\<forall>i<?n. ref_table s ! i = None \<or> is_pool_address (ref_table s ! i) s"
    using st by (auto simp: steady_def list_all_iff)
  from collect_slots[OF st cl rt fuel] obtain s' where
    c: "collect_garbage n roots s = Inr s'" "wf s'" "covered {} s'"
    "length (ref_table s') = ?n"
    "\<forall>i<?n. ref_table s' ! i = None \<or> is_pool_address (ref_table s' ! i) s'"
    "\<forall>i<?n. \<forall>a'. ref_table s' ! i = Some a' \<longrightarrow>
                 (\<exists>a. ref_table s ! i = Some a \<and> type (mem s' a') = type (mem s a)
                     \<and> value_size (mem s' a') = value_size (mem s a)
                     \<and> payload (mem s' a') = payload (mem s a))"
    by blast
  let ?r = "\<lambda>i. if ref_table s' ! i = None then slot_bytes s i else 0"
  have pt: "slot_bytes s' i + ?r i = slot_bytes s i" if "i < ?n" for i
  proof (cases "ref_table s' ! i")
    case None
    then show ?thesis by (simp add: slot_bytes_def)
  next
    case (Some a')
    with c(6) that obtain a where "ref_table s ! i = Some a"
      "value_size (mem s' a') = value_size (mem s a)" by blast
    with Some show ?thesis by (simp add: slot_bytes_def)
  qed
  have allp': "\<forall>i<length (ref_table s'). ref_table s' ! i = None
                 \<or> is_pool_address (ref_table s' ! i) s'"
    using c(4,5) by simp
  have "mem_used s' \<le> (\<Sum>i<?n. slot_bytes s' i)"
    using used_le_live[OF c(2,3)] slot_bytes_sum[OF c(2) allp'] c(4) by simp
  moreover have "(\<Sum>i<?n. slot_bytes s' i) + (\<Sum>i<?n. ?r i) = (\<Sum>i<?n. slot_bytes s i)"
    unfolding sum.distrib[symmetric] by (rule sum.cong) (use pt in auto)
  moreover have "(\<Sum>i<?n. slot_bytes s i) \<le> mem_used s"
    using live_le_used[OF w] slot_bytes_sum[OF w allp] by simp
  moreover have rb: "reclaimed_bytes s s' = (\<Sum>i<?n. ?r i)"
    by (simp add: reclaimed_bytes_def sum_list_upt num_refs_def)
  ultimately have le: "mem_used s' + reclaimed_bytes s s' \<le> mem_used s" by simp
  have strict: "mem_used s' < mem_used s"
    if "\<exists>i<num_refs s. ref_table s ! i \<noteq> None \<and> ref_table s' ! i = None"
  proof -
    from that obtain i a where i: "i < ?n" "ref_table s ! i = Some a" "ref_table s' ! i = None"
      by (auto simp: num_refs_def)
    from allp i have "live_at s i a" by (auto simp: live_at_def)
    with w have "Block a (value_size (mem s a)) True \<in> set (blocks s)"
      by (auto simp: wf_def sized_def)
    with w have "0 < value_size (mem s a)"
      by (auto simp: wf_def alloc_ok_def list_all_iff)
    with i have "0 < ?r i" by (simp add: slot_bytes_def)
    moreover have "?r i \<le> (\<Sum>i<?n. ?r i)"
      by (rule member_le_sum) (use i(1) in auto)
    ultimately have "0 < reclaimed_bytes s s'" unfolding rb by simp
    with le show ?thesis by simp
  qed
  from c(1) le strict show ?thesis by blast
qed

lemma upt_4': "[0..<4] = [0, 1, 2, 3]"
  by (simp add: upt_rec)

theorem collect_bytes_in_use_witness:
  "steady heap4 \<and> closed {0, 2} heap4 \<and> set [0, 2] \<subseteq> {0, 2 :: int} \<and> num_refs heap4 < 5
   \<and> mem_used heap4 = 104
   \<and> (\<exists>s'. collect_garbage 5 [0, 2] heap4 = Inr s' \<and> reclaimed_bytes heap4 s' = 56
          \<and> mem_used s' + 56 \<le> 104 \<and> mem_used s' < 104)"
proof -
  have h3: "set [0, 2] \<subseteq> {0, 2 :: int}" by simp
  have h4: "num_refs heap4 < 5" by (simp add: num_refs_heap4)
  have mu: "mem_used heap4 = 104" by (simp add: mem_used_def heap4_def)
  from collect_bytes_in_use [OF steady_heap4 closed_heap4 h3 h4] obtain s' where
    c: "collect_garbage 5 [0, 2] heap4 = Inr s'"
    "mem_used s' + reclaimed_bytes heap4 s' \<le> mem_used heap4"
    "(\<exists>i<num_refs heap4. ref_table heap4 ! i \<noteq> None \<and> ref_table s' ! i = None)
       \<longrightarrow> mem_used s' < mem_used heap4"
    by blast
  from collect_heap4 c(1) have rt: "ref_table s' = [Some 6144, None, Some 6168, None]" by auto
  have rb: "reclaimed_bytes heap4 s' = 56"
    unfolding reclaimed_bytes_def num_refs_heap4 upt_4' rt
    by (simp add: slot_bytes_def heap4_def scalar24_def self_list_def)
  have "1 < num_refs heap4 \<and> ref_table heap4 ! 1 \<noteq> None \<and> ref_table s' ! 1 = None"
    unfolding rt num_refs_heap4 by (simp add: heap4_def)
  with c(3) have "mem_used s' < mem_used heap4" by blast
  with c(1,2) rb mu steady_heap4 closed_heap4 h3 h4 show ?thesis by auto
qed

text \<open>
  The claim as the spec words it, with a strict decrease for every collection, fails when
  every value is reachable: the collection of \<open>heap4\<close> with its four handles as roots
  copies the four values, and the bytes in use are the same before and after.
\<close>

lemma closed_heap4_all: "closed {0, 1, 2, 3} heap4"
  by (simp add: closed_def heap4_def num_refs_def scalar24_def self_list_def children_def)

theorem collect_bytes_in_use_counterexample:
  "steady heap4 \<and> closed {0, 1, 2, 3} heap4
   \<and> (\<exists>s'. collect_garbage 5 [0, 1, 2, 3] heap4 = Inr s' \<and> mem_used s' = mem_used heap4
         \<and> \<not> mem_used s' < mem_used heap4)"
proof -
  have "\<exists>s'. collect_garbage 5 [0, 1, 2, 3] heap4 = Inr s' \<and> mem_used s' = 104"
    unfolding fuel_5
    by (simp add: collect_garbage_def heap4_def mm_init_def table_at_def num_refs_def upt_4
      is_pool_address_def mm_malloc_def scalar24_def self_list_def Let_def deref_def mem_used_def)
  moreover have "mem_used heap4 = 104" by (simp add: mem_used_def heap4_def)
  ultimately show ?thesis using steady_heap4 closed_heap4_all by auto
qed


section \<open>Reachable handles across a collection\<close>

lemma reach_closed:
  assumes cl: "closed U s" and rt: "set roots \<subseteq> U" and h: "h \<in> reach s roots"
  shows "h \<in> U"
  using h
proof (induction rule: reach.induct)
  case (root r)
  with rt show ?case by auto
next
  case (child h a cs c)
  from cl child.IH obtain a' cs' where "ref_table s ! nat h = Some a'"
    "children (mem s a') = Some cs'" "set cs' \<subseteq> U" unfolding closed_def by blast
  with child.hyps show ?case by auto
qed

lemma copy_run_black: "copy_run U s s' \<Longrightarrow> wf s \<Longrightarrow> black s i \<Longrightarrow> black s' i"
  using copy_run_slots[of U s s' i] copy_run_frame[of U s s'] copy_run_pool[of U s s']
  by (auto simp: black_def stale_def)

lemma copy_run_kids:
  assumes r: "copy_run U s s'" and w: "wf s" and i: "i < length (ref_table s)"
  shows "kids s' i = kids s i"
proof (cases "ref_table s ! i")
  case None
  with copy_run_none[OF r w i] show ?thesis by (simp add: kids_def)
next
  case (Some a)
  from copy_run_val[OF r w i Some] obtain a' where "ref_table s' ! i = Some a'"
    "mem s' a' = mem s a" by auto
  with Some show ?thesis by (simp add: kids_def)
qed

lemma foreach_copy_black:
  assumes ih: "\<And>r s s'. copy_inv U s \<Longrightarrow> r \<in> U \<Longrightarrow> stale_count s < n
                 \<Longrightarrow> copy_contents n r (s :: 'w::len state) = Inr s'
                 \<Longrightarrow> black s' (nat r) \<and> dfs_post s s'"
  shows "set cs \<subseteq> U \<Longrightarrow> copy_inv U (s :: 'w state) \<Longrightarrow> stale_count s < n
         \<Longrightarrow> foreach_global (copy_contents n) cs s = Inr s'
         \<Longrightarrow> (\<forall>c\<in>set cs. black s' (nat c)) \<and> dfs_post s s'"
proof (induction cs arbitrary: s)
  case Nil
  then show ?case by (simp add: dfs_post_def)
next
  case (Cons c cs)
  from Cons.prems have cU: "c \<in> U" and csU: "set cs \<subseteq> U" by auto
  from Cons.prems(4) obtain s1 where 1: "copy_contents n c s = Inr s1"
    and 2: "foreach_global (copy_contents n) cs s1 = Inr s'"
    by (auto split: sum.splits simp del: copy_contents.simps)
  from copy_contents_total[OF Cons.prems(2) cU Cons.prems(3)] 1
  have r1: "copy_run U s s1" by simp
  from copy_run_inv[OF r1 Cons.prems(2)] Cons.prems(3)
  have inv1: "copy_inv U s1" and f1: "stale_count s1 < n" by simp_all
  from foreach_copy_total[where n = n and U = U, OF copy_contents_total csU inv1 f1] 2
  have r2: "copy_run U s1 s'" by simp
  from Cons.prems(2) inv1 have w: "wf s" and w1: "wf s1" by (simp_all add: copy_inv_def)
  from ih[OF Cons.prems(2) cU Cons.prems(3) 1] have a: "black s1 (nat c)" "dfs_post s s1"
    by simp_all
  from Cons.IH[OF csU inv1 f1 2] have b: "\<forall>c\<in>set cs. black s' (nat c)" "dfs_post s1 s'"
    by simp_all
  have "dfs_post s s'"
    unfolding dfs_post_def
  proof (intro allI impI ballI)
    fix i k assume i: "black s' i \<and> \<not> black s i" and k: "k \<in> set (kids s i)"
    have li: "i < length (ref_table s)"
      using i copy_run_frame[OF r1] copy_run_frame[OF r2] by (simp add: black_def)
    show "black s' (nat k)"
    proof (cases "black s1 i")
      case True
      with a(2) i k have "black s1 (nat k)" by (auto simp: dfs_post_def)
      with copy_run_black[OF r2 w1] show ?thesis by simp
    next
      case False
      from copy_run_kids[OF r1 w li] k have "k \<in> set (kids s1 i)" by simp
      with b(2) i False show ?thesis by (auto simp: dfs_post_def)
    qed
  qed
  with a(1) b(1) copy_run_black[OF r2 w1] show ?case by simp
qed

lemma copy_contents_black:
  "copy_inv U s \<Longrightarrow> r \<in> U \<Longrightarrow> stale_count s < n \<Longrightarrow> copy_contents n r s = Inr s'
   \<Longrightarrow> black s' (nat r) \<and> dfs_post s s'"
proof (induction n arbitrary: r s s')
  case 0
  then show ?case by simp
next
  case (Suc n)
  from Suc.prems(1) have w: "wf s" and cl: "closed U s" by (simp_all add: copy_inv_def)
  from w have ok: "alloc_ok s" by (simp add: wf_def)
  from cl Suc.prems(2) obtain a cs where a: "0 \<le> r" "r < int (num_refs s)"
    "ref_table s ! nat r = Some a" "0 < value_size (mem s a)"
    "children (mem s a) = Some cs" "set cs \<subseteq> U"
    unfolding closed_def by blast
  have lt: "nat r < length (ref_table s)" using a(1,2) by (simp add: num_refs_def)
  show ?case
  proof (cases "is_pool_address (Some a) s")
    case True
    have "copy_contents (Suc n) r s = Inr s"
      using True a(1,2,3) by (simp add: copy_contents_Suc[OF ok] del: copy_contents.simps)
    with Suc.prems(4) have e: "s' = s" by (simp del: copy_contents.simps)
    have b: "black s (nat r)" using True a(3) lt by (simp add: black_def)
    have d: "dfs_post s s" unfolding dfs_post_def by blast
    show ?thesis unfolding e using b d by (rule conjI)
  next
    case False
    have un: "copy_contents (Suc n) r s =
        (case first_fit (value_size (mem s a)) (blocks s) of
           None \<Rightarrow> Inl Null_deref
         | Some (new, bs) \<Rightarrow> foreach_global (copy_contents n) cs (moved (nat r) a new bs s))"
      using a(1-5) False
      by (simp add: copy_contents_Suc[OF ok] del: copy_contents.simps split: option.splits)
    obtain new bs where
      ff: "first_fit (value_size (mem s a)) (blocks s) = Some (new, bs)"
      and fe: "foreach_global (copy_contents n) cs (moved (nat r) a new bs s) = Inr s'"
    proof (cases "first_fit (value_size (mem s a)) (blocks s)")
      case None
      from Suc.prems(4) have "Inl Null_deref = Inr s'"
        unfolding un None by (simp only: option.case)
      then show ?thesis by simp
    next
      case (Some p)
      obtain new bs where p: "p = (new, bs)" by (cases p)
      from Suc.prems(4) have "foreach_global (copy_contents n) cs (moved (nat r) a new bs s)
          = Inr s'"
        unfolding un Some p by (simp only: option.case prod.case)
      with Some p that show ?thesis by (simp del: copy_contents.simps)
    qed
    let ?t = "moved (nat r) a new bs s"
    have "int (nat r) \<in> U" using Suc.prems(2) a(1) by simp
    from copy_run.step[OF this lt a(3) False a(4) ff] have st: "copy_run U s ?t" .
    from copy_run_inv[OF st Suc.prems(1)] have inv: "copy_inv U ?t" by simp
    then have wt: "wf ?t" by (simp add: copy_inv_def)
    from stale_bytes_moved(2)[OF w lt a(3) False ff a(4)] Suc.prems(3)
    have fuel: "stale_count ?t < n" by simp
    from foreach_copy_total[where n = n and U = U, OF copy_contents_total a(6) inv fuel] fe
    have r2: "copy_run U ?t s'" by simp
    have "(\<forall>c\<in>set cs. black s' (nat c)) \<and> dfs_post ?t s'"
    proof (rule foreach_copy_black[where n = n and U = U and cs = cs and s = ?t and s' = s'])
      fix r' and t t' :: "'a state"
      assume "copy_inv U t" "r' \<in> U" "stale_count t < n" "copy_contents n r' t = Inr t'"
      then show "black t' (nat r') \<and> dfs_post t t'" by (rule Suc.IH)
    qed (fact a(6) inv fuel fe)+
    then have b: "\<forall>c\<in>set cs. black s' (nat c)" "dfs_post ?t s'" by blast+
    have bt: "black ?t (nat r)"
      using lt step_fresh(1)[OF w ff a(4)] by (simp add: black_def)
    have br: "black s' (nat r)" using copy_run_black[OF r2 wt bt] .
    have kr: "kids s (nat r) = cs" using a(3,5) by (simp add: kids_def)
    have "dfs_post s s'"
      unfolding dfs_post_def
    proof (intro allI impI ballI)
      fix i k assume i: "black s' i \<and> \<not> black s i" and k: "k \<in> set (kids s i)"
      have li: "i < length (ref_table s)"
        using i copy_run_frame[OF r2] by (simp add: black_def)
      show "black s' (nat k)"
      proof (cases "i = nat r")
        case True
        with k kr b(1) show ?thesis by simp
      next
        case ne: False
        have "\<not> black ?t i" using i ne by (simp add: black_def)
        moreover from copy_run_kids[OF st w li] k have "k \<in> set (kids ?t i)" by simp
        ultimately show ?thesis using b(2) i by (auto simp: dfs_post_def)
      qed
    qed
    with br show ?thesis by simp
  qed
qed

lemma roots_black:
  assumes inv: "copy_inv U s0" and rt: "set roots \<subseteq> U" and fuel: "stale_count s0 < n"
    and fe: "foreach_global (copy_contents n) roots s0 = Inr s1"
    and nb: "\<And>i. \<not> black s0 i" and h: "h \<in> reach s0 roots"
  shows "black s1 (nat h)"
proof -
  have "(\<forall>c\<in>set roots. black s1 (nat c)) \<and> dfs_post s0 s1"
  proof (rule foreach_copy_black[where n = n and U = U and cs = roots and s = s0 and s' = s1])
    fix r' and t t' :: "'a state"
    assume "copy_inv U t" "r' \<in> U" "stale_count t < n" "copy_contents n r' t = Inr t'"
    then show "black t' (nat r') \<and> dfs_post t t'" by (rule copy_contents_black)
  qed (fact rt inv fuel fe)+
  then have a: "\<forall>c\<in>set roots. black s1 (nat c)"
    and b: "\<And>i c. black s1 i \<Longrightarrow> c \<in> set (kids s0 i) \<Longrightarrow> black s1 (nat c)"
    using nb by (auto simp: dfs_post_def)
  from h show ?thesis
  proof (induction rule: reach.induct)
    case (root r)
    with a show ?case by simp
  next
    case (child h a cs c)
    from child.hyps(4,5,6) have "c \<in> set (kids s0 (nat h))" by (simp add: kids_def)
    with b[OF child.IH] show ?case by simp
  qed
qed

lemma budget_drop: "budget U r t (xs @ ps) \<Longrightarrow> budget U r t ps"
  unfolding budget_def by (auto intro: le_less_trans[rotated])

lemma quiet_pool: "quiet U r t \<Longrightarrow> is_pool_address p t = is_pool_address p r"
  by (cases p) (simp_all add: quiet_def is_pool_address_def)

lemma quiet_children: "quiet U r t \<Longrightarrow> children (mem t a) = children (mem r a)"
  by (simp add: quiet_def children_def)

lemma decref_quiet:
  assumes cp: "copied U r" and q: "quiet U r t" and b: "budget U r t (c # ps)"
    and c: "0 \<le> c" "c < int (num_refs r)"
  shows "\<exists>t'. decref (Suc m) c t = Inr t' \<and> quiet U r t' \<and> budget U r t' ps"
proof -
  from q have len: "length (ref_table t) = length (ref_table r)" by (simp add: quiet_def)
  have lt: "nat c < length (ref_table r)" using c by (simp add: num_refs_def)
  have rng: "0 \<le> c \<and> c < int (num_refs t)" using c len by (simp add: num_refs_def)
  show ?thesis
  proof (cases "c \<in> U")
    case True
    with cp have bl: "black r (nat c)" by (simp add: copied_def)
    then obtain a where a: "ref_table r ! nat c = Some a" "is_pool_address (Some a) r"
      by (cases "ref_table r ! nat c") (auto simp: black_def)
    from q lt True c(1) have ta: "ref_table t ! nat c = Some a"
      by (auto simp: quiet_def a(1))
    from b True a(1) have cnt: "Suc (count_list ps c) < unat (ref_count (mem t a))"
      by (auto simp: budget_def)
    then have ne1: "ref_count (mem t a) \<noteq> 1" and ne0: "ref_count (mem t a) \<noteq> 0" by auto
    have d: "decref (Suc m) c t = Inr (dec_count a t)"
      using rng ta a(2) ne1 quiet_pool[OF q]
      by (simp add: decref_Suc del: decref.simps)
    have q': "quiet U r (dec_count a t)" using q by (simp add: quiet_def dec_count_def)
    have "budget U r (dec_count a t) ps"
      unfolding budget_def
    proof
      fix h assume h: "h \<in> U"
      show "count_list ps h < unat (ref_count (mem (dec_count a t) (the (ref_table r ! nat h))))"
      proof (cases "h = c")
        case True
        with cnt a(1) ne0 show ?thesis by (simp add: unat_minus_one)
      next
        case False
        from cp h have hb: "0 \<le> h" "black r (nat h)" by (simp_all add: copied_def)
        then obtain ah where ah: "ref_table r ! nat h = Some ah" "is_pool_address (Some ah) r"
          by (cases "ref_table r ! nat h") (auto simp: black_def)
        have "ah \<noteq> a"
        proof
          assume "ah = a"
          with ah a hb bl have "live_at r (nat h) a" "live_at r (nat c) a"
            by (simp_all add: live_at_def black_def)
          with cp have "nat h = nat c" by (auto simp: copied_def inj_slots_def)
          with hb(1) c(1) False show False by simp
        qed
        moreover from b h False ah(1) have "count_list ps h < unat (ref_count (mem t ah))"
          by (auto simp: budget_def)
        ultimately show ?thesis by (simp add: ah(1))
      qed
    qed
    with d q' show ?thesis by blast
  next
    case False
    with cp lt c(1) have np: "\<not> is_pool_address (ref_table r ! nat c) r"
      by (simp add: copied_def)
    from q lt have "ref_table t ! nat c = ref_table r ! nat c \<or> ref_table t ! nat c = None"
      by (auto simp: quiet_def)
    with np have npt: "\<not> is_pool_address (ref_table t ! nat c) t"
      by (auto simp: quiet_pool[OF q])
    have d: "decref (Suc m) c t = Inr t"
      using rng npt by (auto simp: decref_Suc simp del: decref.simps split: option.splits)
    have "budget U r t ps" using b False by (fastforce simp: budget_def split: if_splits)
    with d q show ?thesis by blast
  qed
qed

lemma foreach_quiet:
  assumes cp: "copied U r"
  shows "quiet U r t \<Longrightarrow> budget U r t (cs @ ps)
         \<Longrightarrow> \<forall>c\<in>set cs. 0 \<le> c \<and> c < int (num_refs r)
         \<Longrightarrow> \<exists>t'. foreach_global (decref (Suc m)) cs t = Inr t' \<and> quiet U r t'
                \<and> budget U r t' ps"
proof (induction cs arbitrary: t)
  case Nil
  then show ?case by simp
next
  case (Cons c cs)
  from Cons.prems(2) have b: "budget U r t (c # (cs @ ps))" by simp
  from Cons.prems(3) have c: "0 \<le> c" "c < int (num_refs r)" by simp_all
  from decref_quiet[OF cp Cons.prems(1) b c, of m] obtain t1 where
    t1: "decref (Suc m) c t = Inr t1" "quiet U r t1" "budget U r t1 (cs @ ps)" by blast
  from Cons.prems(3) have rest: "\<forall>c\<in>set cs. 0 \<le> c \<and> c < int (num_refs r)" by simp
  from Cons.IH[OF t1(2,3) rest] obtain t' where
    "foreach_global (decref (Suc m)) cs t1 = Inr t'" "quiet U r t'" "budget U r t' ps" by blast
  with t1(1) show ?case by (simp only: foreach_global.simps sum.case) blast
qed

lemma sweep_quiet:
  assumes cp: "copied U r"
  shows "quiet U r t
         \<Longrightarrow> budget U r t (concat (map (\<lambda>i. if int i \<in> U then [] else kids r i) js))
         \<Longrightarrow> \<forall>i\<in>set js. i < length (ref_table r)
         \<Longrightarrow> \<exists>t'. sweep (Suc m) js t = Inr t' \<and> quiet U r t' \<and> budget U r t' []"
proof (induction js arbitrary: t)
  case Nil
  then show ?case by simp
next
  case (Cons i js)
  let ?P = "\<lambda>js. concat (map (\<lambda>i. if int i \<in> U then [] else kids r i) js)"
  from Cons.prems(3) have i: "i < length (ref_table r)"
    and js: "\<forall>j\<in>set js. j < length (ref_table r)" by simp_all
  from Cons.prems(2) have brest: "budget U r t (?P js)"
    by (cases "int i \<in> U") (auto dest: budget_drop)
  from Cons.prems(1) i have sl: "ref_table t ! i = ref_table r ! i
      \<or> (int i \<notin> U \<and> ref_table t ! i = None)" by (simp add: quiet_def)
  show ?case
  proof (cases "\<not> is_pool_address (ref_table t ! i) t \<and> ref_table t ! i \<noteq> None")
    case False
    from Cons.IH[OF Cons.prems(1) brest js] False show ?thesis
      by (auto simp del: traverse_decref.simps)
  next
    case True
    then obtain a where a: "ref_table t ! i = Some a" "\<not> is_pool_address (Some a) t" by auto
    with sl have ra: "ref_table r ! i = Some a" by auto
    have nU: "int i \<notin> U"
    proof
      assume "int i \<in> U"
      with cp have "black r i" by (auto simp: copied_def)
      with ra a(2) quiet_pool[OF Cons.prems(1)] show False by (simp add: black_def)
    qed
    from cp i ra obtain cs where cs: "children (mem r a) = Some cs"
      "\<forall>c\<in>set cs. 0 \<le> c \<and> c < int (num_refs r)"
      unfolding copied_def all_heap_ok_def by blast
    have k: "kids r i = cs" using ra cs(1) by (simp add: kids_def)
    from Cons.prems(2) nU k have b: "budget U r t (cs @ ?P js)" by simp
    from foreach_quiet[OF cp Cons.prems(1) b cs(2), of m] obtain t1 where
      t1: "foreach_global (decref (Suc m)) cs t = Inr t1" "quiet U r t1"
      "budget U r t1 (?P js)" by blast
    have td: "traverse_decref (Suc m) a t = Inr t1"
      using t1(1) cs(1) quiet_children[OF Cons.prems(1), of a]
      by (simp add: traverse_decref_children del: traverse_decref.simps decref.simps)
    let ?t2 = "t1\<lparr>ref_table := (ref_table t1)[i := None]\<rparr>"
    have q2: "quiet U r ?t2"
      using t1(2) nU i unfolding quiet_def
      by (auto simp: nth_list_update)
    have b2: "budget U r ?t2 (?P js)" using t1(3) by (simp add: budget_def)
    from Cons.IH[OF q2 b2 js] obtain t' where
      "sweep (Suc m) js ?t2 = Inr t'" "quiet U r t'" "budget U r t' []" by blast
    with True a(1) td show ?thesis
      by (auto simp del: traverse_decref.simps)
  qed
qed

lemma reach_init:
  "reach (mm_init m p s) roots = reach s roots"
proof (intro set_eqI iffI)
  fix h assume "h \<in> reach (mm_init m p s) roots"
  then show "h \<in> reach s roots"
  proof (induction rule: reach.induct)
    case (root r)
    then show ?case by (rule reach.root)
  next
    case (child h a cs c)
    from child.IH child.hyps(2-6) show ?case
      by (auto intro: reach.child simp: num_refs_def)
  qed
next
  fix h assume "h \<in> reach s roots"
  then show "h \<in> reach (mm_init m p s) roots"
  proof (induction rule: reach.induct)
    case (root r)
    then show ?case by (rule reach.root)
  next
    case (child h a cs c)
    from child.IH child.hyps(2-6) show ?case
      by (auto intro: reach.child[where a = a and cs = cs] simp: num_refs_def)
  qed
qed

lemma collect_copied:
  assumes st: "steady s" and cl: "closed U s" and rt: "set roots \<subseteq> U"
    and re: "U \<subseteq> reach s roots" and fuel: "num_refs s < n"
    and s1: "foreach_global (copy_contents n) roots (mm_init (pool_size s) (to_space s) s)
               = Inr s1"
      "copy_run U (mm_init (pool_size s) (to_space s) s) s1"
  shows "copied U (swap_spaces s1)"
    and "\<forall>i<length (ref_table s). kids (swap_spaces s1) i = kids s i"
    and "\<forall>h\<in>U. \<exists>a a'. ref_table s ! nat h = Some a \<and> ref_table s1 ! nat h = Some a'
            \<and> mem s1 a' = mem s a"
    and "released s1 = released s"
    and "length (ref_table s1) = length (ref_table s)"
proof -
  let ?s0 = "mm_init (pool_size s) (to_space s) s"
  note i0 = steady_init[OF st cl]
  from i0(1) have w0: "wf ?s0" by (simp add: copy_inv_def)
  note w1 = copy_run_wf[OF s1(2) w0]
  note f1 = copy_run_frame[OF s1(2)]
  have sc: "stale_count ?s0 < n"
    using fuel by (simp add: stale_count_def num_refs_def le_less_trans[OF length_filter_le])
  have nb: "\<not> black ?s0 i" for i
  proof
    assume "black ?s0 i"
    then obtain a where "live_at ?s0 i a"
      by (cases "ref_table ?s0 ! i") (auto simp: black_def live_at_def is_pool_address_def)
    with i0(3) show False by blast
  qed
  show len: "length (ref_table s1) = length (ref_table s)" using f1 by simp
  show "released s1 = released s" using f1 by simp
  have h2: "all_heap_ok (swap_spaces s1)"
    using copy_run_all_heap_ok[OF s1(2) w0 i0(2)] by simp
  have bl: "black (swap_spaces s1) (nat h)" if "h \<in> U" for h
  proof -
    from that re have "h \<in> reach ?s0 roots" by (auto simp: reach_init)
    from roots_black[OF i0(1) rt sc s1(1) nb this] show ?thesis by (simp add: black_def)
  qed
  have np: "\<not> is_pool_address (ref_table (swap_spaces s1) ! i) (swap_spaces s1)"
    if i: "i < length (ref_table (swap_spaces s1))" "int i \<notin> U" for i
  proof -
    from i len have i': "i < length (ref_table ?s0)" by simp
    from copy_run_slots[OF s1(2) w0 i'] i(2)
    have e: "ref_table s1 ! i = ref_table ?s0 ! i" by simp
    have "\<not> is_pool_address (ref_table ?s0 ! i) ?s0"
    proof
      assume p: "is_pool_address (ref_table ?s0 ! i) ?s0"
      then obtain a where "ref_table ?s0 ! i = Some a"
        by (cases "ref_table ?s0 ! i") (auto simp: is_pool_address_def)
      with p i' have "live_at ?s0 i a" by (simp add: live_at_def)
      with i0(3) show False by blast
    qed
    with e copy_run_pool[OF s1(2)] show ?thesis by simp
  qed
  from w1 have inj: "inj_slots (swap_spaces s1)" by (simp add: wf_def inj_slots_def)
  from cl have pos: "\<forall>h\<in>U. 0 \<le> h" by (simp add: closed_def)
  show "copied U (swap_spaces s1)"
    unfolding copied_def using bl pos np inj h2 by blast
  show "\<forall>i<length (ref_table s). kids (swap_spaces s1) i = kids s i"
  proof (intro allI impI)
    fix i assume i: "i < length (ref_table s)"
    then have "i < length (ref_table ?s0)" by simp
    from copy_run_kids[OF s1(2) w0 this] show "kids (swap_spaces s1) i = kids s i"
      by (simp add: kids_def cong: option.case_cong)
  qed
  show "\<forall>h\<in>U. \<exists>a a'. ref_table s ! nat h = Some a \<and> ref_table s1 ! nat h = Some a'
            \<and> mem s1 a' = mem s a"
  proof
    fix h assume "h \<in> U"
    with cl obtain a where a: "0 \<le> h" "h < int (num_refs s)" "ref_table s ! nat h = Some a"
      by (auto simp: closed_def)
    then have i: "nat h < length (ref_table ?s0)" "ref_table ?s0 ! nat h = Some a"
      by (simp_all add: num_refs_def)
    from copy_run_val[OF s1(2) w0 i] a(3)
    show "\<exists>a a'. ref_table s ! nat h = Some a \<and> ref_table s1 ! nat h = Some a'
            \<and> mem s1 a' = mem s a" by auto
  qed
qed

text \<open>
  C1. Let \<open>U\<close> be the handles that the roots can reach in a steady state, and let the
  count stored in the value of each of them be above the number of times the values of
  the other handles refer to it. Then \<open>collect_garbage\<close> returns, it releases nothing, and
  every handle that the roots can reach is preserved: \<open>deref\<close> of it succeeds after
  the collection, \<open>get_ref\<close> of the address is the same handle, the value is in an
  allocated block of the new active region with the kind, the size and the data it had,
  and its count is not zero.
\<close>

theorem reachable_handles_preserved:
  assumes st: "steady s" and cl: "closed U s" and rt: "set roots \<subseteq> U"
    and re: "U \<subseteq> reach s roots" and fuel: "num_refs s < n"
    and cnt: "\<forall>h\<in>U. count_list (unreached_refs U s) h < count_at s h"
  shows "\<exists>s'. collect_garbage n roots s = Inr s' \<and> released s' = released s
           \<and> (\<forall>h\<in>reach s roots. \<exists>a a'. deref h s = Inr a \<and> deref h s' = Inr a'
                  \<and> get_ref (Some a') s' = Inr h
                  \<and> Block a' (value_size (mem s a)) True \<in> set (blocks s')
                  \<and> type (mem s' a') = type (mem s a)
                  \<and> value_size (mem s' a') = value_size (mem s a)
                  \<and> payload (mem s' a') = payload (mem s a)
                  \<and> ref_count (mem s' a') \<noteq> 0)"
proof -
  let ?s0 = "mm_init (pool_size s) (to_space s) s"
  from collect_phases[OF st cl rt fuel] obtain s1 where
    s1: "foreach_global (copy_contents n) roots ?s0 = Inr s1" "copy_run U ?s0 s1" by blast
  let ?s2 = "swap_spaces s1"
  note cc = collect_copied[OF st cl rt re fuel s1]
  from fuel obtain m where n: "n = Suc m" by (cases n) simp_all
  have q0: "quiet U ?s2 ?s2" by (simp add: quiet_def)
  let ?P = "concat (map (\<lambda>i. if int i \<in> U then [] else kids ?s2 i) [0..<num_refs ?s2])"
  have "map (\<lambda>i. if int i \<in> U then [] else kids ?s2 i) [0..<num_refs ?s2]
        = map (\<lambda>i. if int i \<in> U then [] else kids s i) [0..<num_refs s]"
    using cc(2,5) by (simp add: num_refs_def)
  then have P: "?P = unreached_refs U s" by (simp add: unreached_refs_def)
  have b0: "budget U ?s2 ?s2 ?P"
    unfolding budget_def P
  proof
    fix h assume h: "h \<in> U"
    with cc(3) obtain a a' where a: "ref_table s ! nat h = Some a"
      "ref_table s1 ! nat h = Some a'" "mem s1 a' = mem s a" by blast
    with cnt h show "count_list (unreached_refs U s) h
        < unat (ref_count (mem ?s2 (the (ref_table ?s2 ! nat h))))"
      by (auto simp: count_at_def)
  qed
  have ix: "\<forall>i\<in>set [0..<num_refs ?s2]. i < length (ref_table ?s2)"
    by (simp add: num_refs_def)
  from sweep_quiet[OF cc(1) q0 b0 ix, of m] obtain s' where
    sw: "sweep (Suc m) [0..<num_refs ?s2] ?s2 = Inr s'" "quiet U ?s2 s'" "budget U ?s2 s' []"
    by blast
  have cg: "collect_garbage n roots s = Inr s'"
    using s1(1) sw(1) n by (simp add: collect_garbage_def Let_def swap_spaces_def)
  from collect_slots[OF st cl rt fuel] cg have
    c: "wf s'" "length (ref_table s') = length (ref_table s)"
    "\<forall>i<length (ref_table s). ref_table s' ! i = None \<or> is_pool_address (ref_table s' ! i) s'"
    "\<forall>i<length (ref_table s). \<forall>a'. ref_table s' ! i = Some a' \<longrightarrow>
                 (\<exists>a. ref_table s ! i = Some a \<and> type (mem s' a') = type (mem s a)
                     \<and> value_size (mem s' a') = value_size (mem s a)
                     \<and> payload (mem s' a') = payload (mem s a))"
    by auto
  from sw(2) cc(4) have rel: "released s' = released s" by (simp add: quiet_def)
  have U: "h \<in> U" if "h \<in> reach s roots" for h
    using reach_closed[OF cl rt that] .
  have keep: "\<exists>a a'. deref h s = Inr a \<and> deref h s' = Inr a'
                  \<and> get_ref (Some a') s' = Inr h
                  \<and> Block a' (value_size (mem s a)) True \<in> set (blocks s')
                  \<and> type (mem s' a') = type (mem s a)
                  \<and> value_size (mem s' a') = value_size (mem s a)
                  \<and> payload (mem s' a') = payload (mem s a)
                  \<and> ref_count (mem s' a') \<noteq> 0"
    if hr: "h \<in> reach s roots" for h
  proof -
    from U[OF hr] have h: "h \<in> U" .
    with cl have r: "0 \<le> h" "h < int (num_refs s)" by (auto simp: closed_def)
    then have lt: "nat h < length (ref_table s)" by (simp add: num_refs_def)
    from cc(1) h have "black ?s2 (nat h)" by (simp add: copied_def)
    then obtain a' where a': "ref_table ?s2 ! nat h = Some a'"
      by (cases "ref_table ?s2 ! nat h") (auto simp: black_def is_pool_address_def)
    from sw(2) lt cc(5) h r(1) have t': "ref_table s' ! nat h = ref_table ?s2 ! nat h"
      by (auto simp: quiet_def)
    with a' have sl: "ref_table s' ! nat h = Some a'" by simp
    with c(3) lt have p': "is_pool_address (Some a') s'" by auto
    from c(4) lt sl obtain a where a: "ref_table s ! nat h = Some a"
      "type (mem s' a') = type (mem s a)" "value_size (mem s' a') = value_size (mem s a)"
      "payload (mem s' a') = payload (mem s a)" by blast
    from steady_slot(1)[OF st lt a(1)] r have d: "deref h s = Inr a"
      by (simp add: deref_def a(1))
    from r c(2) sl p' have d': "deref h s' = Inr a'"
      by (simp add: deref_def num_refs_def)
    from c(1) have inj: "inj_slots s'" by (simp add: wf_def)
    from c(2,3) have allp': "\<forall>i<length (ref_table s'). ref_table s' ! i = None
                 \<or> is_pool_address (ref_table s' ! i) s'" by simp
    note g = get_ref_deref[OF inj d' allp']
    from lt c(2) sl p' have "live_at s' (nat h) a'" by (simp add: live_at_def)
    with c(1) have "Block a' (value_size (mem s' a')) True \<in> set (blocks s')"
      by (simp add: wf_def sized_def)
    with a(3) have blk: "Block a' (value_size (mem s a)) True \<in> set (blocks s')" by simp
    from sw(3) h a' have "ref_count (mem s' a') \<noteq> 0" by (auto simp: budget_def)
    with d d' g blk a(2-4) show ?thesis by blast
  qed
  from cg rel keep show ?thesis by blast
qed

lemma steady_shared_heap: "steady (shared_heap c)"
  by (simp add: steady_def table_ok_def alloc_ok_def slot_addrs_def shared_heap_def
      is_pool_address_def children_def scalar24_def list_of0_def num_refs_def)

lemma closed_shared_heap: "closed {0} (shared_heap c)"
  by (simp add: closed_def shared_heap_def num_refs_def scalar24_def children_def)

lemma upt_2: "[0..<2] = [0, Suc 0]"
  by (simp add: upt_rec)

lemma shared_heap_budget:
  "\<forall>h\<in>{0}. count_list (unreached_refs {0} (shared_heap 2)) h < count_at (shared_heap 2) h"
  by (simp add: unreached_refs_def count_at_def kids_def shared_heap_def num_refs_def upt_2
      children_def list_of0_def scalar24_def)

theorem reachable_handles_preserved_witness:
  "steady (shared_heap 2) \<and> closed {0} (shared_heap 2) \<and> set [0] \<subseteq> {0::int}
   \<and> {0} \<subseteq> reach (shared_heap 2) [0] \<and> num_refs (shared_heap 2) < 3
   \<and> count_list (unreached_refs {0} (shared_heap 2)) 0 < count_at (shared_heap 2) 0
   \<and> (\<exists>s'. collect_garbage 3 [0] (shared_heap 2) = Inr s' \<and> released s' = []
         \<and> deref 0 s' = Inr 6144 \<and> get_ref (Some 6144) s' = Inr 0
         \<and> ref_table s' = [Some 6144, None]
         \<and> mem s' 6144 = scalar24)"
proof -
  have re: "{0} \<subseteq> reach (shared_heap 2) [0]" by (auto intro: reach.root)
  have nr: "num_refs (shared_heap 2) < 3" by (simp add: num_refs_def shared_heap_def)
  have rt: "set [0] \<subseteq> {0::int}" by simp
  from reachable_handles_preserved[OF steady_shared_heap closed_shared_heap rt re nr
      shared_heap_budget]
  obtain s' where c: "collect_garbage 3 [0] (shared_heap 2) = Inr s'"
    "released s' = released (shared_heap 2)"
    "\<forall>h\<in>reach (shared_heap 2) [0]. \<exists>a a'. deref h (shared_heap 2) = Inr a
        \<and> deref h s' = Inr a' \<and> get_ref (Some a') s' = Inr h
        \<and> Block a' (value_size (mem (shared_heap 2) a)) True \<in> set (blocks s')
        \<and> type (mem s' a') = type (mem (shared_heap 2) a)
        \<and> value_size (mem s' a') = value_size (mem (shared_heap 2) a)
        \<and> payload (mem s' a') = payload (mem (shared_heap 2) a)
        \<and> ref_count (mem s' a') \<noteq> 0"
    by blast
  have e: "\<exists>s'. collect_garbage 3 [0] (shared_heap 2) = Inr s'
        \<and> ref_table s' = [Some 6144, None] \<and> mm_base s' = 6144 \<and> mm_size s' = 2048
        \<and> mem s' 6144 = scalar24"
    unfolding fuel_3
    by (simp add: collect_garbage_def shared_heap_def mm_init_def table_at_def num_refs_def
        upt_2 is_pool_address_def mm_malloc_def scalar24_def list_of0_def Let_def deref_def)
  with c(1) have t: "ref_table s' = [Some 6144, None]" "mm_base s' = 6144" "mm_size s' = 2048"
    "mem s' 6144 = scalar24" by auto
  then have d': "deref 0 s' = Inr 6144"
    by (simp add: deref_def num_refs_def is_pool_address_def)
  from re have "0 \<in> reach (shared_heap 2) [0]" by auto
  from c(3)[rule_format, OF this] d' have g: "get_ref (Some 6144) s' = Inr 0" by auto
  from c(2) have r: "released s' = []" by (simp add: shared_heap_def)
  from shared_heap_budget
  have b: "count_list (unreached_refs {0} (shared_heap 2)) 0 < count_at (shared_heap 2) 0"
    by simp
  from c(1) r d' g t(1,4) steady_shared_heap closed_shared_heap rt re nr b
  show ?thesis by blast
qed

text \<open>
  The claim as the spec words it, for any stored count, fails: in \<open>shared_heap 1\<close> the
  root handle 0 holds a scalar of count 1 that the list of handle 1, which no root
  reaches, refers to. The collection copies the scalar, and the sweep of the list
  brings the count of the copy to zero, clears slot 0 and releases the copy.
\<close>

theorem reachable_handles_preserved_counterexample:
  "steady (shared_heap 1) \<and> closed {0} (shared_heap 1) \<and> 0 \<in> reach (shared_heap 1) [0]
   \<and> deref 0 (shared_heap 1) = Inr 4096
   \<and> (\<exists>s'. collect_garbage 3 [0] (shared_heap 1) = Inr s' \<and> ref_table s' = [None, None]
         \<and> deref 0 s' = Inl Assert_failed \<and> released s' = [6144])"
proof -
  have "\<exists>s'. collect_garbage 3 [0] (shared_heap 1) = Inr s' \<and> ref_table s' = [None, None]
         \<and> deref 0 s' = Inl Assert_failed \<and> released s' = [6144]"
    unfolding fuel_3
    by (simp add: collect_garbage_def shared_heap_def mm_init_def table_at_def num_refs_def
        upt_2 is_pool_address_def mm_malloc_def mm_free_def scalar24_def list_of0_def Let_def
        deref_def)
  moreover have "deref 0 (shared_heap 1) = Inr 4096"
    by (simp add: deref_def shared_heap_def num_refs_def is_pool_address_def)
  moreover have "0 \<in> reach (shared_heap 1) [0]" by (auto intro: reach.root)
  ultimately show ?thesis using steady_shared_heap closed_shared_heap by blast
qed

end
